theory Spec2Isabelle
  imports Main "HOL-Library.Multiset"
begin

section \<open>Five-valued logic of gate.py\<close>

text \<open>
  The logic values of the simulator. Python writes them \<open>0\<close>, \<open>1\<close>, \<open>'X'\<close>, \<open>'D'\<close>
  and \<open>'~D'\<close>; membership tests such as \<open>0 in inputs\<close> compare with \<open>==\<close>, which on
  these five values is equality.
\<close>

datatype val = L0 | L1 | LX | LD | LDn

text \<open>The exceptions the source can raise, as values.\<close>

datatype error = ValueError | AssertionError | IndexError | KeyError | TypeError

text \<open>Sequencing of fallible steps: the first raised exception ends the computation.\<close>

definition bind_res :: "error + 'a \<Rightarrow> ('a \<Rightarrow> error + 'b) \<Rightarrow> error + 'b" where
  "bind_res m f = (case m of Inl e \<Rightarrow> Inl e | Inr x \<Rightarrow> f x)"

text \<open>\<open>Gate.invert\<close>: the dictionary lookup, total on the five values.\<close>

fun invert :: "val \<Rightarrow> val" where
  "invert LX = LX"
| "invert LD = LDn"
| "invert LDn = LD"
| "invert L0 = L1"
| "invert L1 = L0"

text \<open>Python truthiness: \<open>0\<close> is false, \<open>1\<close> and every non-empty string are true.\<close>

fun truthy :: "val \<Rightarrow> bool" where
  "truthy L0 = False"
| "truthy L1 = True"
| "truthy LX = True"
| "truthy LD = True"
| "truthy LDn = True"

text \<open>\<open>Gate.not_propagate\<close>.\<close>

definition not_propagate :: "val list \<Rightarrow> error + val" where
  "not_propagate inputs =
     (if length inputs \<noteq> 1 then Inl AssertionError
      else Inr (invert (inputs ! 0)))"

text \<open>\<open>Gate.and_propagate\<close>, branch by branch, the final \<open>return 0\<close> included.\<close>

definition and_propagate :: "val list \<Rightarrow> error + val" where
  "and_propagate inputs =
     (if \<not> length inputs > 1 then Inl AssertionError
      else if L0 \<in> set inputs then Inr L0
      else if list_all (\<lambda>x. x = L1) inputs then Inr L1
      else
        (let d_found = (LD \<in> set inputs);
             d_prime_found = (LDn \<in> set inputs)
         in if d_found \<and> d_prime_found then Inr L0
            else if LX \<in> set inputs then Inr LX
            else if d_found \<and> \<not> d_prime_found then Inr LD
            else if \<not> d_found \<and> d_prime_found then Inr LDn
            else Inr L0))"

text \<open>\<open>Gate.or_propagate\<close>.\<close>

definition or_propagate :: "val list \<Rightarrow> error + val" where
  "or_propagate inputs =
     (if \<not> length inputs > 1 then Inl AssertionError
      else if L1 \<in> set inputs then Inr L1
      else if \<not> list_ex truthy inputs then Inr L0
      else
        (let d_found = (LD \<in> set inputs);
             d_prime_found = (LDn \<in> set inputs)
         in if d_found \<and> d_prime_found then Inr L1
            else if LX \<in> set inputs then Inr LX
            else if d_found then Inr LD
            else Inr LDn))"

text \<open>\<open>Gate.nand_propagate\<close> and \<open>Gate.nor_propagate\<close>.\<close>

definition nand_propagate :: "val list \<Rightarrow> error + val" where
  "nand_propagate inputs = bind_res (and_propagate inputs) (\<lambda>v. Inr (invert v))"

definition nor_propagate :: "val list \<Rightarrow> error + val" where
  "nor_propagate inputs = bind_res (or_propagate inputs) (\<lambda>v. Inr (invert v))"

text \<open>The local function \<open>xor_2inp\<close> of \<open>Gate.xor_propagate\<close>.\<close>

definition xor_2inp :: "val \<Rightarrow> val \<Rightarrow> error + val" where
  "xor_2inp a b =
     bind_res (and_propagate [a, invert b]) (\<lambda>first_and.
     bind_res (and_propagate [b, invert a]) (\<lambda>second_and.
     or_propagate [first_and, second_and]))"

text \<open>
  The \<open>while\<close> loop of \<open>Gate.xor_propagate\<close>: as long as the list is not empty, pop its
  last element and combine it with the running value.
\<close>

fun xor_loop :: "val \<Rightarrow> val list \<Rightarrow> error + val" where
  "xor_loop v inputs =
     (if length inputs > 0
      then (case xor_2inp v (last inputs) of
              Inl e \<Rightarrow> Inl e
            | Inr v' \<Rightarrow> xor_loop v' (butlast inputs))
      else Inr v)"

declare xor_loop.simps [simp del]

text \<open>\<open>Gate.xor_propagate\<close>: \<open>inputs.pop(-1)\<close> raises IndexError on the empty list.\<close>

definition xor_propagate :: "val list \<Rightarrow> error + val" where
  "xor_propagate inputs =
     (if inputs = [] then Inl IndexError
      else xor_loop (last inputs) (butlast inputs))"

definition xnor_propagate :: "val list \<Rightarrow> error + val" where
  "xnor_propagate inputs = bind_res (xor_propagate inputs) (\<lambda>v. Inr (invert v))"

section \<open>Signals and gates\<close>

text \<open>
  The objects of the source reference each other (a \<open>Node\<close> lists the gates it feeds and
  the gate that drives it, a \<open>Gate\<close> lists its input nodes and owns its output node), and
  they are mutated in place. The heap is therefore explicit: nodes and gates live in two
  tables and refer to each other by index, in order of creation.
\<close>

datatype gate_type = GNot | GAnd | GNand | GOr | GNor | GXor | GXnor

record node =
  stuck_at :: "int option"
  state :: val
  gates :: "nat list"
  gate_output :: "nat option"
  name :: string
  cc0 :: "int option"
  cc1 :: "int option"

record gate =
  control_value :: int
  gtype :: gate_type
  gname :: string
  inputs :: "nat list"
  out_node :: nat
  depth :: nat

text \<open>
  The two tables and the class attributes \<open>Node.name_count\<close> and \<open>Gate.name_counts\<close>
  (a dictionary, whose lookup raises KeyError on a missing key).
\<close>

record circuit =
  nodes :: "node list"
  gate_tab :: "gate list"
  name_count :: nat
  name_counts :: "gate_type \<rightharpoonup> nat"

definition empty_circuit :: circuit where
  "empty_circuit =
     \<lparr>nodes = [], gate_tab = [], name_count = 0,
      name_counts = [GNot \<mapsto> 0, GAnd \<mapsto> 0, GNand \<mapsto> 0, GOr \<mapsto> 0, GNor \<mapsto> 0,
                     GXor \<mapsto> 0, GXnor \<mapsto> 0]\<rparr>"

subsection \<open>Names\<close>

text \<open>\<open>generate_name\<close>: bijective base 26 over the capital letters.\<close>

function generate_name :: "nat \<Rightarrow> string" where
  "generate_name cnt =
     (if cnt \<noteq> 0
      then generate_name ((cnt - 1) div 26) @ [char_of ((cnt - 1) mod 26 + 65)]
      else [])"
  by pat_completeness auto
termination
  by (relation "measure (\<lambda>cnt. cnt)") auto

declare generate_name.simps [simp del]

text \<open>The decimal rendering of a counter inside an f-string.\<close>

function str_nat :: "nat \<Rightarrow> string" where
  "str_nat n =
     (if n < 10 then [char_of (n + 48)]
      else str_nat (n div 10) @ [char_of (n mod 10 + 48)])"
  by pat_completeness auto
termination
  by (relation "measure (\<lambda>n. n)") auto

declare str_nat.simps [simp del]

fun type_str :: "gate_type \<Rightarrow> string" where
  "type_str GNot = ''not''"
| "type_str GAnd = ''and''"
| "type_str GNand = ''nand''"
| "type_str GOr = ''or''"
| "type_str GNor = ''nor''"
| "type_str GXor = ''xor''"
| "type_str GXnor = ''xnor''"

subsection \<open>Node\<close>

text \<open>\<open>Node.__init__\<close>: the new node is appended to the table; its index is returned.\<close>

definition Node_init ::
  "circuit \<Rightarrow> string option \<Rightarrow> nat option \<Rightarrow> int option \<Rightarrow> circuit \<times> nat" where
  "Node_init c nm gout sa =
     (let c' = (case nm of Some s \<Rightarrow> c | None \<Rightarrow> c\<lparr>name_count := name_count c + 1\<rparr>);
          nm' = (case nm of Some s \<Rightarrow> s | None \<Rightarrow> generate_name (name_count c'));
          n = \<lparr>stuck_at = sa, state = LX, gates = [], gate_output = gout, name = nm',
               cc0 = None, cc1 = None\<rparr>
      in (c'\<lparr>nodes := nodes c' @ [n]\<rparr>, length (nodes c')))"

definition is_faulty :: "node \<Rightarrow> bool" where
  "is_faulty n = (stuck_at n \<noteq> None)"

definition is_fanout :: "node \<Rightarrow> bool" where
  "is_fanout n = (length (gates n) > 1)"

definition is_po :: "node \<Rightarrow> bool" where
  "is_po n = (length (gates n) = 0)"

definition is_pi :: "node \<Rightarrow> bool" where
  "is_pi n = (gate_output n = None)"

text \<open>
  \<open>Node.set_state\<close>. The node is returned updated; when ValueError is raised nothing has
  been assigned, so the caller keeps the node it had.
\<close>

definition set_state :: "node \<Rightarrow> val \<Rightarrow> error + node" where
  "set_state n v =
     (if is_faulty n \<and> v \<in> set [LD, LDn] then Inl ValueError
      else if stuck_at n = Some 0 \<and> v = L1 then Inr (n\<lparr>state := LD\<rparr>)
      else if stuck_at n = Some 1 \<and> v = L0 then Inr (n\<lparr>state := LDn\<rparr>)
      else Inr (n\<lparr>state := v\<rparr>))"

subsection \<open>Gate\<close>

text \<open>\<open>Gate.set_depth\<close>, over the gate's input list.\<close>

definition set_depth :: "circuit \<Rightarrow> nat list \<Rightarrow> nat" where
  "set_depth c ins =
     fold (\<lambda>i d.
        (case gate_output (nodes c ! i) of
           None \<Rightarrow> d
         | Some g \<Rightarrow> if depth (gate_tab c ! g) > d then depth (gate_tab c ! g) else d))
       ins 0 + 1"

text \<open>One round of the loop \<open>for node in self.inputs: node.gates.append(self)\<close>.\<close>

definition add_consumer :: "nat \<Rightarrow> nat \<Rightarrow> node list \<Rightarrow> node list" where
  "add_consumer gid i ns = ns[i := (ns ! i)\<lparr>gates := gates (ns ! i) @ [gid]\<rparr>]"

text \<open>
  \<open>Gate.__init__\<close>. The gate is entered into the table under the next free index once its
  fields are set; the constructor checks nothing about the number of inputs.
\<close>

definition Gate_init ::
  "circuit \<Rightarrow> gate_type \<Rightarrow> nat list \<Rightarrow> error + circuit \<times> nat" where
  "Gate_init c ty ins =
     (case name_counts c ty of
        None \<Rightarrow> Inl KeyError
      | Some k \<Rightarrow>
          (let gid = length (gate_tab c);
               c1 = c\<lparr>name_counts := (name_counts c)(ty \<mapsto> k + 1)\<rparr>;
               nm = type_str ty @ str_nat (k + 1);
               c2 = c1\<lparr>nodes := fold (add_consumer gid) ins (nodes c1)\<rparr>;
               (c3, out) = Node_init c2 None (Some gid) None;
               g = \<lparr>control_value = - 1, gtype = ty, gname = nm, inputs = ins,
                    out_node = out, depth = set_depth c3 ins\<rparr>
           in Inr (c3\<lparr>gate_tab := gate_tab c3 @ [g]\<rparr>, gid)))"

text \<open>
  The subclasses \<open>Not\<close>, \<open>And\<close>, \<open>Or\<close>, \<open>Nand\<close>, \<open>Nor\<close>, \<open>Xor\<close>, \<open>Xnor\<close>: the base
  constructor, then the controlling value for AND/NAND (0) and OR/NOR (1).
\<close>

definition subclass_init ::
  "circuit \<Rightarrow> gate_type \<Rightarrow> nat list \<Rightarrow> error + circuit \<times> nat" where
  "subclass_init c ty ins =
     bind_res (Gate_init c ty ins) (\<lambda>(c', gid).
       let cv = (if ty = GAnd \<or> ty = GNand then Some 0
                 else if ty = GOr \<or> ty = GNor then Some 1 else None)
       in (case cv of
             None \<Rightarrow> Inr (c', gid)
           | Some v \<Rightarrow>
               Inr (c'\<lparr>gate_tab := (gate_tab c')[gid := (gate_tab c' ! gid)\<lparr>control_value := v\<rparr>]\<rparr>,
                    gid)))"

text \<open>\<open>Gate._propagate\<close>: the dispatch on the type tag.\<close>

fun propagate_fn :: "gate_type \<Rightarrow> val list \<Rightarrow> error + val" where
  "propagate_fn GNot = not_propagate"
| "propagate_fn GAnd = and_propagate"
| "propagate_fn GNand = nand_propagate"
| "propagate_fn GOr = or_propagate"
| "propagate_fn GNor = nor_propagate"
| "propagate_fn GXor = xor_propagate"
| "propagate_fn GXnor = xnor_propagate"

text \<open>
  \<open>Gate.propagate\<close> (the \<open>verbose\<close> flag only prints): read the input states, compute
  the output, assign it to the output node through \<open>set_state\<close>, return the new state.
\<close>

definition propagate :: "circuit \<Rightarrow> nat \<Rightarrow> error + circuit \<times> val" where
  "propagate c gid =
     (let g = gate_tab c ! gid;
          ins = map (\<lambda>i. state (nodes c ! i)) (inputs g)
      in bind_res (propagate_fn (gtype g) ins) (\<lambda>out_val.
         bind_res (set_state (nodes c ! out_node g) out_val) (\<lambda>n'.
           Inr (c\<lparr>nodes := (nodes c)[out_node g := n']\<rparr>, state n'))))"

text \<open>\<open>node.set_state(val)\<close> on the node with index \<open>n\<close> of the heap.\<close>

definition assign :: "circuit \<Rightarrow> nat \<Rightarrow> val \<Rightarrow> error + circuit" where
  "assign c n v =
     bind_res (set_state (nodes c ! n) v) (\<lambda>n'. Inr (c\<lparr>nodes := (nodes c)[n := n']\<rparr>))"

text \<open>
  The \<open>while\<close> loop of \<open>Node.has_x_path\<close>. The stack \<open>to_explore\<close> is popped at its end;
  \<open>explored\<close> is only appended to, never read. There is no visited check, so on a heap
  with a cycle the loop may run forever: not returning is the value \<open>None\<close>.
\<close>

partial_function (option) has_x_path_loop ::
  "circuit \<Rightarrow> nat list \<Rightarrow> nat list \<Rightarrow> bool option" where
  "has_x_path_loop c explored to_explore =
     (if length to_explore > 0
      then (let node = last to_explore;
                rest = butlast to_explore;
                explored' = explored @ [node]
            in if is_po (nodes c ! node) then Some True
               else has_x_path_loop c explored'
                      (rest @ map (\<lambda>g. out_node (gate_tab c ! g))
                                (filter (\<lambda>g. state (nodes c ! out_node (gate_tab c ! g)) = LX)
                                   (gates (nodes c ! node)))))
      else Some False)"

text \<open>\<open>Node.has_x_path\<close>.\<close>

definition has_x_path :: "circuit \<Rightarrow> nat \<Rightarrow> bool option" where
  "has_x_path c n =
     (if is_po (nodes c ! n) then Some (state (nodes c ! n) = LX)
      else has_x_path_loop c []
             (map (\<lambda>g. out_node (gate_tab c ! g))
                (filter (\<lambda>g. state (nodes c ! out_node (gate_tab c ! g)) = LX)
                   (gates (nodes c ! n)))))"

subsection \<open>Controllability\<close>

text \<open>
  \<open>sum(...)\<close> over a list of scores: the running total starts at 0, and adding a score
  that is still \<open>None\<close> raises TypeError.
\<close>

fun py_sum_from :: "int \<Rightarrow> int option list \<Rightarrow> error + int" where
  "py_sum_from acc [] = Inr acc"
| "py_sum_from acc (None # xs) = Inl TypeError"
| "py_sum_from acc (Some x # xs) = py_sum_from (acc + x) xs"

definition py_sum :: "int option list \<Rightarrow> error + int" where
  "py_sum xs = py_sum_from 0 xs"

text \<open>
  \<open>min(...)\<close> over a list of scores: ValueError on the empty list; the first smallest
  element otherwise. A score that is still \<open>None\<close> raises TypeError, in a comparison or,
  when it is the only element, in the \<open>+ 1\<close> that follows every call in the source.
\<close>

fun py_min_from :: "int \<Rightarrow> int option list \<Rightarrow> error + int" where
  "py_min_from m [] = Inr m"
| "py_min_from m (None # xs) = Inl TypeError"
| "py_min_from m (Some x # xs) = py_min_from (if x < m then x else m) xs"

definition py_min :: "int option list \<Rightarrow> error + int" where
  "py_min xs =
     (case xs of
        [] \<Rightarrow> Inl ValueError
      | None # rest \<Rightarrow> Inl TypeError
      | Some x # rest \<Rightarrow> py_min_from x rest)"

text \<open>\<open>score + 1\<close> and \<open>term += score\<close>: TypeError when the score is \<open>None\<close>.\<close>

fun add_score :: "int \<Rightarrow> int option \<Rightarrow> error + int" where
  "add_score t None = Inl TypeError"
| "add_score t (Some x) = Inr (t + x)"

text \<open>
  \<open>itertools.combinations(xs, r)\<close>: the sub-lists of length \<open>r\<close>, in lexicographic order
  of positions.
\<close>

fun combinations :: "'a list \<Rightarrow> nat \<Rightarrow> 'a list list" where
  "combinations xs 0 = [[]]"
| "combinations [] (Suc r) = []"
| "combinations (x # xs) (Suc r) = map ((#) x) (combinations xs r) @ combinations xs (Suc r)"

text \<open>\<open>construct_odds\<close>, local to \<open>xor_cc1_xnor_cc0\<close>.\<close>

definition construct_odds :: "nat \<Rightarrow> nat list list" where
  "construct_odds n =
     (let odds = filter (\<lambda>x. x mod 2 = 1) [1..<n + 1]
      in concat (map (\<lambda>odd. combinations [1..<n + 1] odd) odds))"

text \<open>The inner loop of \<open>xor_cc1_xnor_cc0\<close>: the cost of one combination.\<close>

fun comb_term :: "circuit \<Rightarrow> nat list \<Rightarrow> (nat \<times> nat) list \<Rightarrow> int \<Rightarrow> error + int" where
  "comb_term c combination [] t = Inr t"
| "comb_term c combination ((idx, inp) # rest) t =
     bind_res
       (if idx + 1 \<in> set combination then add_score t (cc1 (nodes c ! inp))
        else add_score t (cc0 (nodes c ! inp)))
       (\<lambda>t'. comb_term c combination rest t')"

text \<open>The outer loop: the running minimum, which starts at 1000000.\<close>

fun xor_min_loop :: "circuit \<Rightarrow> nat list \<Rightarrow> nat list list \<Rightarrow> int \<Rightarrow> error + int" where
  "xor_min_loop c gate_inputs [] mn = Inr mn"
| "xor_min_loop c gate_inputs (combination # rest) mn =
     bind_res (comb_term c combination (enumerate 0 gate_inputs) 0)
       (\<lambda>t. xor_min_loop c gate_inputs rest (if t < mn then t else mn))"

definition xor_cc1_xnor_cc0 :: "circuit \<Rightarrow> nat list \<Rightarrow> error + int" where
  "xor_cc1_xnor_cc0 c gate_inputs =
     bind_res (xor_min_loop c gate_inputs (construct_odds (length gate_inputs)) 1000000)
       (\<lambda>mn. Inr (mn + 1))"

text \<open>The pair (cc0, cc1) that \<open>set_controllability\<close> computes for a gate's output.\<close>

definition gate_controllability :: "circuit \<Rightarrow> gate \<Rightarrow> error + int \<times> int" where
  "gate_controllability c g =
     (let gate_inputs = inputs g;
          cc0s = map (\<lambda>x. cc0 (nodes c ! x)) gate_inputs;
          cc1s = map (\<lambda>x. cc1 (nodes c ! x)) gate_inputs;
          plus1 = (\<lambda>r. bind_res r (\<lambda>x. Inr (x + 1)));
          min_sums = bind_res (py_sum cc0s) (\<lambda>s0. bind_res (py_sum cc1s) (\<lambda>s1.
                       Inr (if s1 < s0 then s1 else s0)))
      in case gtype g of
           GNot \<Rightarrow>
             (if gate_inputs = [] then Inl IndexError
              else bind_res (add_score 1 (cc1 (nodes c ! (gate_inputs ! 0)))) (\<lambda>a.
                   bind_res (add_score 1 (cc0 (nodes c ! (gate_inputs ! 0)))) (\<lambda>b. Inr (a, b))))
         | GAnd \<Rightarrow>
             bind_res (plus1 (py_min cc0s)) (\<lambda>a. bind_res (plus1 (py_sum cc1s)) (\<lambda>b. Inr (a, b)))
         | GNand \<Rightarrow>
             bind_res (plus1 (py_sum cc1s)) (\<lambda>a. bind_res (plus1 (py_min cc0s)) (\<lambda>b. Inr (a, b)))
         | GOr \<Rightarrow>
             bind_res (plus1 (py_sum cc0s)) (\<lambda>a. bind_res (plus1 (py_min cc1s)) (\<lambda>b. Inr (a, b)))
         | GNor \<Rightarrow>
             bind_res (plus1 (py_min cc1s)) (\<lambda>a. bind_res (plus1 (py_sum cc0s)) (\<lambda>b. Inr (a, b)))
         | GXor \<Rightarrow>
             bind_res (plus1 min_sums) (\<lambda>a.
             bind_res (xor_cc1_xnor_cc0 c gate_inputs) (\<lambda>b. Inr (a, b)))
         | GXnor \<Rightarrow>
             bind_res (xor_cc1_xnor_cc0 c gate_inputs) (\<lambda>a.
             bind_res (plus1 min_sums) (\<lambda>b. Inr (a, b))))"

text \<open>\<open>Node.set_controllability\<close>: the scores are stored on the node and returned.\<close>

definition set_controllability :: "circuit \<Rightarrow> nat \<Rightarrow> error + circuit \<times> int \<times> int" where
  "set_controllability c n =
     (case gate_output (nodes c ! n) of
        None \<Rightarrow>
          Inr (c\<lparr>nodes := (nodes c)[n := (nodes c ! n)\<lparr>cc0 := Some 1, cc1 := Some 1\<rparr>]\<rparr>, (1, 1))
      | Some gid \<Rightarrow>
          bind_res (gate_controllability c (gate_tab c ! gid)) (\<lambda>(a, b).
            Inr (c\<lparr>nodes := (nodes c)[n := (nodes c ! n)\<lparr>cc0 := Some a, cc1 := Some b\<rparr>]\<rparr>,
                 (a, b))))"

subsection \<open>Controllable-input selection\<close>

text \<open>\<open>Gate.get_unassigned_inputs\<close>.\<close>

definition get_unassigned_inputs :: "circuit \<Rightarrow> nat \<Rightarrow> nat list" where
  "get_unassigned_inputs c gid =
     filter (\<lambda>i. state (nodes c ! i) = LX) (inputs (gate_tab c ! gid))"

text \<open>
  The loops of \<open>get_hardest_controllable_input\<close> and \<open>get_easiest_controllable_input\<close>:
  comparing a score that is still \<open>None\<close> with the running bound raises TypeError.
\<close>

fun hardest_loop ::
  "circuit \<Rightarrow> (node \<Rightarrow> int option) \<Rightarrow> nat list \<Rightarrow> int \<Rightarrow> nat option \<Rightarrow> error + nat option" where
  "hardest_loop c attribute [] maxm nd = Inr nd"
| "hardest_loop c attribute (inp # rest) maxm nd =
     (case attribute (nodes c ! inp) of
        None \<Rightarrow> Inl TypeError
      | Some controllability \<Rightarrow>
          if controllability > maxm
          then hardest_loop c attribute rest controllability (Some inp)
          else hardest_loop c attribute rest maxm nd)"

fun easiest_loop ::
  "circuit \<Rightarrow> (node \<Rightarrow> int option) \<Rightarrow> nat list \<Rightarrow> int \<Rightarrow> nat option \<Rightarrow> error + nat option" where
  "easiest_loop c attribute [] minm nd = Inr nd"
| "easiest_loop c attribute (inp # rest) minm nd =
     (case attribute (nodes c ! inp) of
        None \<Rightarrow> Inl TypeError
      | Some controllability \<Rightarrow>
          if controllability < minm
          then easiest_loop c attribute rest controllability (Some inp)
          else easiest_loop c attribute rest minm nd)"

text \<open>The candidates both functions scan, and the attribute they compare.\<close>

definition scanned_inputs :: "circuit \<Rightarrow> nat \<Rightarrow> bool \<Rightarrow> nat list" where
  "scanned_inputs c gid unassigned =
     (let ins0 = (if unassigned then get_unassigned_inputs c gid else [])
      in if length ins0 = 0 \<or> \<not> unassigned then inputs (gate_tab c ! gid) else ins0)"

definition cc_attribute :: "val \<Rightarrow> node \<Rightarrow> int option" where
  "cc_attribute v = (if v = L0 then cc0 else cc1)"

definition get_hardest_controllable_input ::
  "circuit \<Rightarrow> nat \<Rightarrow> val \<Rightarrow> bool \<Rightarrow> error + nat option" where
  "get_hardest_controllable_input c gid v unassigned =
     hardest_loop c (cc_attribute v) (scanned_inputs c gid unassigned) 0 None"

definition get_easiest_controllable_input ::
  "circuit \<Rightarrow> nat \<Rightarrow> val \<Rightarrow> bool \<Rightarrow> error + nat option" where
  "get_easiest_controllable_input c gid v unassigned =
     easiest_loop c (cc_attribute v) (scanned_inputs c gid unassigned) 100000 None"

subsection \<open>Well-formed heaps\<close>

text \<open>
  What the constructors guarantee about the heap. A gate's output node exists and is
  created after all of the gate's inputs (\<open>Gate.__init__\<close> takes existing nodes and then
  creates the output node), and every entry of a node's consumer list is a gate that has
  the node among its inputs.
\<close>

definition wf_circuit :: "circuit \<Rightarrow> bool" where
  "wf_circuit c =
     (list_all (\<lambda>g. out_node g < length (nodes c) \<and> list_all (\<lambda>i. i < out_node g) (inputs g))
        (gate_tab c)
      \<and> list_all (\<lambda>n. list_all (\<lambda>g. g < length (gate_tab c) \<and> n \<in> set (inputs (gate_tab c ! g)))
                        (gates (nodes c ! n)))
          [0..<length (nodes c)])"

section \<open>The specification's tables\<close>

text \<open>
  The AND rule as the specification words it: 0 if any input is 0; else 1 if all inputs
  are 1; else 0 if both D and ~D are present; else X if any input is X; else D if only D
  is present (no ~D, no X, no 0); else ~D.
\<close>

definition and_table :: "val list \<Rightarrow> val" where
  "and_table xs =
     (if L0 \<in> set xs then L0
      else if list_all (\<lambda>x. x = L1) xs then L1
      else if LD \<in> set xs \<and> LDn \<in> set xs then L0
      else if LX \<in> set xs then LX
      else if LD \<in> set xs \<and> LDn \<notin> set xs \<and> LX \<notin> set xs \<and> L0 \<notin> set xs then LD
      else LDn)"

text \<open>
  A way of reducing a list of values pairwise: the leaves are the values, in any order,
  and every inner node is one application of \<open>xor_2inp\<close> to the results of its two
  branches.
\<close>

datatype grouping = Leaf val | Pair grouping grouping

fun leaves :: "grouping \<Rightarrow> val list" where
  "leaves (Leaf v) = [v]"
| "leaves (Pair l r) = leaves l @ leaves r"

fun reduce :: "grouping \<Rightarrow> error + val" where
  "reduce (Leaf v) = Inr v"
| "reduce (Pair l r) =
     bind_res (reduce l) (\<lambda>a. bind_res (reduce r) (\<lambda>b. xor_2inp a b))"

text \<open>The value table that \<open>xor_2inp\<close> computes (lemma \<open>xor_2inp_total\<close>), for the proofs.\<close>

fun xor5 :: "val \<Rightarrow> val \<Rightarrow> val" where
  "xor5 LX b = LX"
| "xor5 a LX = LX"
| "xor5 L0 b = b"
| "xor5 a L0 = a"
| "xor5 L1 b = invert b"
| "xor5 a L1 = invert a"
| "xor5 LD LD = L0"
| "xor5 LD LDn = L1"
| "xor5 LDn LD = L1"
| "xor5 LDn LDn = L0"

text \<open>
  A path of the specification: a non-empty list of nodes, each with value X, each next
  one the output of a gate that the previous one feeds, the last one a primary output.
\<close>

fun x_path :: "circuit \<Rightarrow> nat list \<Rightarrow> bool" where
  "x_path c [] = False"
| "x_path c [m] = (state (nodes c ! m) = LX \<and> is_po (nodes c ! m))"
| "x_path c (m # m' # ms) =
     (state (nodes c ! m) = LX
      \<and> m' \<in> set (map (\<lambda>g. out_node (gate_tab c ! g)) (gates (nodes c ! m)))
      \<and> x_path c (m' # ms))"

text \<open>The X-valued outputs of the gates a node feeds: what the loop pushes for it.\<close>

definition x_children :: "circuit \<Rightarrow> nat \<Rightarrow> nat list" where
  "x_children c m =
     map (\<lambda>g. out_node (gate_tab c ! g))
       (filter (\<lambda>g. state (nodes c ! out_node (gate_tab c ! g)) = LX) (gates (nodes c ! m)))"

text \<open>
  The order along which the loop terminates: among the \<open>N\<close> nodes of the heap, a node
  created later is smaller.
\<close>

definition later_node :: "nat \<Rightarrow> (nat \<times> nat) set" where
  "later_node N = {(b, a). a < b \<and> b < N}"

text \<open>
  Parity-min as the specification words it: the minimum, over every odd-sized subset of the
  input positions, of the sum of cc1 over the positions in the subset plus the sum of cc0
  over the positions outside it.
\<close>

definition subset_cost :: "circuit \<Rightarrow> nat list \<Rightarrow> nat set \<Rightarrow> int" where
  "subset_cost c gate_inputs S =
     (\<Sum>i \<in> S. the (cc1 (nodes c ! (gate_inputs ! i))))
     + (\<Sum>i \<in> {0..<length gate_inputs} - S. the (cc0 (nodes c ! (gate_inputs ! i))))"

definition parity_min :: "circuit \<Rightarrow> nat list \<Rightarrow> int" where
  "parity_min c gate_inputs =
     Min (subset_cost c gate_inputs
            ` Set.filter (\<lambda>S. odd (card S)) (Pow {0..<length gate_inputs}))"

text \<open>The input positions that a combination of \<open>construct_odds\<close> selects.\<close>

definition comb_positions :: "nat \<Rightarrow> nat list \<Rightarrow> nat set" where
  "comb_positions n combination = {i. i < n \<and> Suc i \<in> set combination}"

text \<open>
  The set of gates that read node \<open>n\<close> as an input, as the list of their indices, each
  gate once.
\<close>

definition readers :: "circuit \<Rightarrow> nat \<Rightarrow> nat list" where
  "readers c n = filter (\<lambda>g. n \<in> set (inputs (gate_tab c ! g))) [0..<length (gate_tab c)]"

section \<open>Example objects\<close>

text \<open>Three primary-input nodes: fault-free, stuck-at-0 and stuck-at-1.\<close>

definition healthy_node :: node where
  "healthy_node = \<lparr>stuck_at = None, state = LX, gates = [], gate_output = None,
                    name = ''A'', cc0 = None, cc1 = None\<rparr>"

definition sa0_node :: node where
  "sa0_node = \<lparr>stuck_at = Some 0, state = LX, gates = [], gate_output = None,
                    name = ''B'', cc0 = None, cc1 = None\<rparr>"

definition sa1_node :: node where
  "sa1_node = \<lparr>stuck_at = Some 1, state = LX, gates = [], gate_output = None,
                    name = ''C'', cc0 = None, cc1 = None\<rparr>"

text \<open>
  Circuits built by the constructors: one and two primary inputs; an AND gate fed twice
  by the same primary input; a NOT gate over two primary inputs.
\<close>

definition one_pi :: circuit where
  "one_pi = fst (Node_init empty_circuit None None None)"

definition two_pi :: circuit where
  "two_pi = fst (Node_init one_pi None None None)"

definition and_aa :: circuit where
  "and_aa = (case Gate_init one_pi GAnd [0, 0] of Inr (c, g) \<Rightarrow> c | Inl e \<Rightarrow> one_pi)"

definition not_ab :: circuit where
  "not_ab = (case Gate_init two_pi GNot [0, 1] of Inr (c, g) \<Rightarrow> c | Inl e \<Rightarrow> two_pi)"

text \<open>
  An AND gate over two primary inputs; the same with the inputs assigned 1 and D; and the
  result of propagating the gate.
\<close>

definition and_ab :: circuit where
  "and_ab = (case Gate_init two_pi GAnd [0, 1] of Inr (c, g) \<Rightarrow> c | Inl e \<Rightarrow> two_pi)"

definition and_ab_set :: circuit where
  "and_ab_set =
     (case bind_res (assign and_ab 0 L1) (\<lambda>c. assign c 1 LD) of
        Inr c \<Rightarrow> c | Inl e \<Rightarrow> and_ab)"

definition and_ab_run :: circuit where
  "and_ab_run = (case propagate and_ab_set 0 of Inr (c, v) \<Rightarrow> c | Inl e \<Rightarrow> and_ab_set)"

text \<open>
  A chain of 19 AND gates, each fed twice by the node before it, starting at a primary
  input, with \<open>set_controllability\<close> called on every node in dependency order; an XOR
  gate and an XNOR gate fed twice by the last node of the chain.
\<close>

fun and_chain :: "nat \<Rightarrow> circuit \<Rightarrow> nat \<Rightarrow> error + circuit" where
  "and_chain 0 c x = Inr c"
| "and_chain (Suc k) c x =
     bind_res (Gate_init c GAnd [x, x]) (\<lambda>(c1, g).
     bind_res (set_controllability c1 (out_node (gate_tab c1 ! g))) (\<lambda>(c2, ccs).
       and_chain k c2 (out_node (gate_tab c2 ! g))))"

definition chain19 :: circuit where
  "chain19 =
     (case bind_res (set_controllability one_pi 0) (\<lambda>(c, ccs). and_chain 19 c 0) of
        Inr c \<Rightarrow> c | Inl e \<Rightarrow> one_pi)"

definition xor_top :: circuit where
  "xor_top = (case Gate_init chain19 GXor [19, 19] of Inr (c, g) \<Rightarrow> c | Inl e \<Rightarrow> chain19)"

definition xnor_top :: circuit where
  "xnor_top = (case Gate_init chain19 GXnor [19, 19] of Inr (c, g) \<Rightarrow> c | Inl e \<Rightarrow> chain19)"

section \<open>Properties\<close>

subsection \<open>AND propagation\<close>

lemma val_cases5: "x = L0 \<or> x = L1 \<or> x = LX \<or> x = LD \<or> x = LDn"
  by (cases x) simp_all

lemma not_all_one:
  assumes "\<not> list_all (\<lambda>x. x = L1) xs" "L0 \<notin> set xs" "LX \<notin> set xs" "LD \<notin> set xs"
  shows "LDn \<in> set xs"
proof -
  from assms(1) obtain x where x: "x \<in> set xs" "x \<noteq> L1"
    by (auto simp: list_all_iff)
  with assms(2-4) val_cases5 [of x] show ?thesis by metis
qed

text \<open>
  C3. For every list of two or more values, \<open>and_propagate\<close> returns (without raising)
  the value the specification's AND rule gives: 0 if any input is 0; else 1 if all are 1;
  else 0 if both D and ~D occur; else X if X occurs; else D if only D occurs; else ~D.
\<close>

theorem and_propagate_table:
  "2 \<le> length xs \<Longrightarrow> and_propagate xs = Inr (and_table xs)"
  unfolding and_propagate_def and_table_def Let_def
  using not_all_one [of xs] by (simp; blast)

theorem and_propagate_table_witness:
  "2 \<le> length [LD, L1, LD] \<and> and_propagate [LD, L1, LD] = Inr (and_table [LD, L1, LD])
   \<and> and_table [LD, L1, LD] = LD"
  using and_propagate_table [of "[LD, L1, LD]"] by (simp add: and_table_def)

subsection \<open>XOR propagation\<close>

lemma xor_2inp_total: "xor_2inp a b = Inr (xor5 a b)"
  by (cases a; cases b; simp add: xor_2inp_def and_propagate_def or_propagate_def bind_res_def)

lemma xor5_commute: "xor5 a b = xor5 b a"
  by (cases a; cases b; simp)

lemma xor5_assoc: "xor5 (xor5 a b) c = xor5 a (xor5 b c)"
  by (cases a; cases b; cases c; simp)

lemma xor5_L0_right: "xor5 a L0 = a"
  by (cases a; simp)

lemma xor5_fold_commute: "xor5 x \<circ> xor5 y = xor5 y \<circ> xor5 x"
proof
  fix z
  have "xor5 x (xor5 y z) = xor5 (xor5 x y) z" by (simp add: xor5_assoc)
  also have "\<dots> = xor5 (xor5 y x) z" by (simp add: xor5_commute [of x y])
  also have "\<dots> = xor5 y (xor5 x z)" by (simp add: xor5_assoc)
  finally show "(xor5 x \<circ> xor5 y) z = (xor5 y \<circ> xor5 x) z" by simp
qed

lemma fold_xor5_start: "fold xor5 xs a = xor5 a (fold xor5 xs L0)"
proof (induction xs arbitrary: a)
  case Nil
  show ?case by (simp add: xor5_L0_right)
next
  case (Cons x xs)
  have "fold xor5 (x # xs) a = xor5 (xor5 x a) (fold xor5 xs L0)"
    using Cons.IH [of "xor5 x a"] by simp
  also have "\<dots> = xor5 a (xor5 x (fold xor5 xs L0))"
    by (simp add: xor5_commute [of x a] xor5_assoc)
  also have "xor5 x (fold xor5 xs L0) = fold xor5 (x # xs) L0"
    using Cons.IH [of "xor5 x L0"] by (simp add: xor5_L0_right)
  finally show ?case .
qed

lemma xor_loop_fold: "xor_loop v xs = Inr (xor5 v (fold xor5 xs L0))"
proof (induction xs arbitrary: v rule: rev_induct)
  case Nil
  show ?case by (simp add: xor_loop.simps xor5_L0_right)
next
  case (snoc x xs)
  have "xor_loop v (xs @ [x]) = xor_loop (xor5 v x) xs"
    by (subst xor_loop.simps) (simp add: xor_2inp_total)
  also have "\<dots> = Inr (xor5 (xor5 v x) (fold xor5 xs L0))"
    by (rule snoc.IH)
  also have "xor5 (xor5 v x) (fold xor5 xs L0) = xor5 v (fold xor5 (xs @ [x]) L0)"
    by (simp add: xor5_assoc xor5_commute [of x])
  finally show ?case .
qed

lemma xor_propagate_fold:
  assumes "xs \<noteq> []"
  shows "xor_propagate xs = Inr (fold xor5 xs L0)"
proof -
  have "xor_propagate xs = Inr (xor5 (last xs) (fold xor5 (butlast xs) L0))"
    using assms by (simp add: xor_propagate_def xor_loop_fold)
  also have "xor5 (last xs) (fold xor5 (butlast xs) L0) = fold xor5 (butlast xs @ [last xs]) L0"
    by simp
  also have "butlast xs @ [last xs] = xs"
    using assms by simp
  finally show ?thesis .
qed

lemma reduce_fold: "reduce t = Inr (fold xor5 (leaves t) L0)"
proof (induction t)
  case (Leaf v)
  show ?case by (simp add: xor5_L0_right)
next
  case (Pair l r)
  have "fold xor5 (leaves l @ leaves r) L0
        = xor5 (fold xor5 (leaves l) L0) (fold xor5 (leaves r) L0)"
    using fold_xor5_start [of "leaves r" "fold xor5 (leaves l) L0"] by simp
  with Pair show ?case
    by (simp add: bind_res_def xor_2inp_total)
qed

lemma leaves_nonempty: "leaves t \<noteq> []"
  by (induction t) simp_all

lemma fold_xor5_perm: "mset xs = mset ys \<Longrightarrow> fold xor5 xs = fold xor5 ys"
  by (rule fold_multiset_equiv) (simp_all add: xor5_fold_commute)

text \<open>
  C8. The binary operation \<open>xor_2inp\<close> never raises, is commutative and is associative
  on the five values; hence \<open>xor_propagate\<close>, which folds the list from its right end,
  returns what every other grouping and every other order of the same values returns.
\<close>

theorem xor_reduction_any_grouping:
  "(\<forall>a b. \<exists>v. xor_2inp a b = Inr v)
   \<and> (\<forall>a b. xor_2inp a b = xor_2inp b a)
   \<and> (\<forall>a b c. bind_res (xor_2inp a b) (\<lambda>v. xor_2inp v c)
               = bind_res (xor_2inp b c) (\<lambda>w. xor_2inp a w))
   \<and> (\<forall>t xs. mset (leaves t) = mset xs \<longrightarrow> xor_propagate xs = reduce t)"
proof (intro conjI allI impI)
  fix a b show "\<exists>v. xor_2inp a b = Inr v" by (simp add: xor_2inp_total)
next
  fix a b show "xor_2inp a b = xor_2inp b a"
    by (simp add: xor_2inp_total xor5_commute [of a b])
next
  fix a b c
  show "bind_res (xor_2inp a b) (\<lambda>v. xor_2inp v c) = bind_res (xor_2inp b c) (\<lambda>w. xor_2inp a w)"
    by (simp add: xor_2inp_total bind_res_def xor5_assoc)
next
  fix t xs assume eq: "mset (leaves t) = mset xs"
  then have "xs \<noteq> []" using leaves_nonempty [of t] by auto
  then have "xor_propagate xs = Inr (fold xor5 xs L0)" by (rule xor_propagate_fold)
  also have "fold xor5 xs = fold xor5 (leaves t)"
    using eq by (intro fold_xor5_perm) simp
  finally show "xor_propagate xs = reduce t" by (simp add: reduce_fold)
qed

theorem xor_reduction_any_grouping_witness:
  "mset (leaves (Pair (Pair (Leaf L1) (Leaf LD)) (Leaf LDn))) = mset [LD, LDn, L1]
   \<and> xor_propagate [LD, LDn, L1] = reduce (Pair (Pair (Leaf L1) (Leaf LD)) (Leaf LDn))
   \<and> reduce (Pair (Pair (Leaf L1) (Leaf LD)) (Leaf LDn)) = Inr L0"
proof -
  have m: "mset (leaves (Pair (Pair (Leaf L1) (Leaf LD)) (Leaf LDn))) = mset [LD, LDn, L1]"
    by simp
  have r: "reduce (Pair (Pair (Leaf L1) (Leaf LD)) (Leaf LDn)) = Inr L0"
    by (simp add: bind_res_def xor_2inp_def and_propagate_def or_propagate_def)
  from xor_reduction_any_grouping m r show ?thesis by blast
qed

subsection \<open>Assignment and fault masking\<close>

text \<open>
  C1, as stated, fails: a fault-free node accepts D and ~D and stores them, and a node
  that carries a fault raises ValueError on D and on ~D.
\<close>

theorem assign_d_nonfaulty_counterexample:
  "\<not> is_faulty healthy_node
   \<and> set_state healthy_node LD = Inr (healthy_node\<lparr>state := LD\<rparr>)
   \<and> set_state healthy_node LDn = Inr (healthy_node\<lparr>state := LDn\<rparr>)
   \<and> is_faulty sa0_node
   \<and> set_state sa0_node LD = Inl ValueError
   \<and> set_state sa0_node LDn = Inl ValueError"
  by (simp add: set_state_def is_faulty_def healthy_node_def sa0_node_def)

text \<open>
  C1, amended. Assigning D or ~D through \<open>set_state\<close> raises ValueError exactly when the
  node carries a fault (nothing is then assigned); on a fault-free node the value is stored
  and no other field changes.
\<close>

theorem set_state_d_error:
  "v = LD \<or> v = LDn \<Longrightarrow>
     (is_faulty n \<longrightarrow> set_state n v = Inl ValueError)
     \<and> (\<not> is_faulty n \<longrightarrow> set_state n v = Inr (n\<lparr>state := v\<rparr>))"
  by (auto simp: set_state_def is_faulty_def)

theorem set_state_d_error_witness:
  "is_faulty sa1_node \<and> set_state sa1_node LDn = Inl ValueError
   \<and> \<not> is_faulty healthy_node \<and> set_state healthy_node LD = Inr (healthy_node\<lparr>state := LD\<rparr>)"
proof -
  have f: "is_faulty sa1_node" by (simp add: is_faulty_def sa1_node_def)
  have h: "\<not> is_faulty healthy_node" by (simp add: is_faulty_def healthy_node_def)
  from set_state_d_error [of LDn sa1_node] set_state_d_error [of LD healthy_node] f h
  show ?thesis by simp
qed

text \<open>
  C6. On a stuck-at-0 node, assigning 1 stores D and assigning 0 stores 0; on a stuck-at-1
  node, assigning 0 stores ~D and assigning 1 stores 1; in every other case with a value
  among 0, 1 and X the value itself is stored. No other field of the node changes.
\<close>

theorem set_state_masking:
  "(stuck_at n = Some 0 \<longrightarrow>
      set_state n L1 = Inr (n\<lparr>state := LD\<rparr>) \<and> set_state n L0 = Inr (n\<lparr>state := L0\<rparr>))
   \<and> (stuck_at n = Some 1 \<longrightarrow>
      set_state n L0 = Inr (n\<lparr>state := LDn\<rparr>) \<and> set_state n L1 = Inr (n\<lparr>state := L1\<rparr>))
   \<and> ((v = L0 \<or> v = L1 \<or> v = LX) \<and> \<not> (stuck_at n = Some 0 \<and> v = L1)
        \<and> \<not> (stuck_at n = Some 1 \<and> v = L0) \<longrightarrow>
      set_state n v = Inr (n\<lparr>state := v\<rparr>))"
  by (auto simp: set_state_def is_faulty_def)

theorem set_state_masking_witness:
  "stuck_at sa0_node = Some 0
   \<and> set_state sa0_node L1 = Inr (sa0_node\<lparr>state := LD\<rparr>)
   \<and> set_state sa0_node L0 = Inr (sa0_node\<lparr>state := L0\<rparr>)
   \<and> stuck_at sa1_node = Some 1
   \<and> set_state sa1_node L0 = Inr (sa1_node\<lparr>state := LDn\<rparr>)
   \<and> set_state sa1_node L1 = Inr (sa1_node\<lparr>state := L1\<rparr>)
   \<and> set_state healthy_node L1 = Inr (healthy_node\<lparr>state := L1\<rparr>)
   \<and> set_state sa1_node LX = Inr (sa1_node\<lparr>state := LX\<rparr>)"
proof -
  have a: "stuck_at sa0_node = Some 0" by (simp add: sa0_node_def)
  have b: "stuck_at sa1_node = Some 1" by (simp add: sa1_node_def)
  have c: "stuck_at healthy_node = None" by (simp add: healthy_node_def)
  from set_state_masking [of sa0_node L0] set_state_masking [of sa1_node LX]
       set_state_masking [of healthy_node L1] a b c
  show ?thesis by simp
qed

subsection \<open>Gate construction\<close>

lemma length_fold_add_consumer [simp]:
  "length (fold (add_consumer g) ins ns) = length ns"
  by (induction ins arbitrary: ns) (simp_all add: add_consumer_def)

lemma gates_fold_add_consumer:
  "n < length ns \<Longrightarrow>
   gates (fold (add_consumer g) ins ns ! n) = gates (ns ! n) @ replicate (count_list ins n) g"
proof (induction ins arbitrary: ns)
  case Nil
  show ?case by simp
next
  case (Cons i ins)
  have len: "n < length (add_consumer g i ns)"
    using Cons.prems by (simp add: add_consumer_def)
  have step: "gates (add_consumer g i ns ! n) = gates (ns ! n) @ (if i = n then [g] else [])"
    using Cons.prems by (simp add: add_consumer_def nth_list_update)
  show ?case
    using Cons.IH [OF len] step by (simp add: replicate_append_same)
qed

lemma Gate_init_Inr:
  assumes "Gate_init c ty ins = Inr (c', g)"
  shows "g = length (gate_tab c)"
    and "\<exists>nn. nodes c' = fold (add_consumer g) ins (nodes c) @ [nn]
           \<and> gates nn = [] \<and> state nn = LX \<and> gate_output nn = Some g \<and> stuck_at nn = None"
    and "\<exists>gn. gate_tab c' = gate_tab c @ [gn] \<and> inputs gn = ins \<and> gtype gn = ty
           \<and> out_node gn = length (nodes c)"
  using assms
  by (auto simp: Gate_init_def Node_init_def Let_def split: option.splits)

lemma Gate_init_succeeds:
  "name_counts c ty = Some k \<Longrightarrow> \<exists>c'. Gate_init c ty ins = Inr (c', length (gate_tab c))"
  by (simp add: Gate_init_def Node_init_def Let_def)

lemma Gate_init_new_gate:
  assumes "Gate_init c ty ins = Inr (c', g)"
  shows "inputs (gate_tab c' ! g) = ins" "gtype (gate_tab c' ! g) = ty"
    "out_node (gate_tab c' ! g) = length (nodes c)"
  using Gate_init_Inr [OF assms] by auto

lemma name_counts_one_pi: "name_counts one_pi ty = Some 0"
  by (cases ty) (simp_all add: one_pi_def Node_init_def empty_circuit_def Let_def)

lemma name_counts_two_pi: "name_counts two_pi ty = Some 0"
  using name_counts_one_pi [of ty] by (simp add: two_pi_def Node_init_def Let_def)

lemma length_nodes_one_pi: "length (nodes one_pi) = 1"
  by (simp add: one_pi_def Node_init_def empty_circuit_def Let_def)

lemma gate_tab_one_pi: "gate_tab one_pi = []"
  by (simp add: one_pi_def Node_init_def empty_circuit_def Let_def)

lemma gate_tab_two_pi: "gate_tab two_pi = []"
  by (simp add: two_pi_def Node_init_def gate_tab_one_pi Let_def)

lemma Gate_init_and_aa: "Gate_init one_pi GAnd [0, 0] = Inr (and_aa, 0)"
  using Gate_init_succeeds [OF name_counts_one_pi, of GAnd "[0, 0]"]
  by (auto simp: and_aa_def gate_tab_one_pi)

lemma Gate_init_not_ab: "Gate_init two_pi GNot [0, 1] = Inr (not_ab, 0)"
  using Gate_init_succeeds [OF name_counts_two_pi, of GNot "[0, 1]"]
  by (auto simp: not_ab_def gate_tab_two_pi)

lemma propagate_arity_error:
  assumes "inputs (gate_tab c ! g) = ins" "gtype (gate_tab c ! g) = ty"
    and "ty = GNot \<and> length ins \<noteq> 1
         \<or> (ty = GAnd \<or> ty = GNand \<or> ty = GOr \<or> ty = GNor) \<and> length ins < 2"
  shows "propagate c g = Inl AssertionError"
  using assms
  by (auto simp: propagate_def Let_def bind_res_def not_propagate_def and_propagate_def
      or_propagate_def nand_propagate_def nor_propagate_def)

text \<open>
  C2, as stated, fails: the constructor accepts a NOT gate with no input or with two, and
  AND, OR, NAND, NOR, XOR and XNOR gates with fewer than two inputs.
\<close>

theorem arity_unchecked_counterexample:
  "\<not> isl (Gate_init two_pi GNot [])
   \<and> \<not> isl (Gate_init two_pi GNot [0, 1])
   \<and> \<not> isl (Gate_init two_pi GAnd [0])
   \<and> \<not> isl (Gate_init two_pi GOr [])
   \<and> \<not> isl (Gate_init two_pi GNand [1])
   \<and> \<not> isl (Gate_init two_pi GNor [0])
   \<and> \<not> isl (Gate_init two_pi GXor [1])
   \<and> \<not> isl (Gate_init two_pi GXnor [])
   \<and> \<not> isl (subclass_init two_pi GNot [0, 1])
   \<and> \<not> isl (subclass_init two_pi GAnd [0])"
  by (simp add: Gate_init_def subclass_init_def bind_res_def Node_init_def Let_def
      name_counts_two_pi)

text \<open>
  C2, amended. Constructing a gate of any type over any list of inputs succeeds: the
  constructor does not check the number of inputs. For a NOT gate whose number of inputs
  is not 1, and for an AND, NAND, OR or NOR gate with fewer than 2 inputs, the violation
  surfaces when \<open>propagate\<close> is called on the gate, as an AssertionError.
\<close>

theorem arity_checked_at_propagate:
  "name_counts c ty \<noteq> None \<Longrightarrow>
     (\<exists>c' g. Gate_init c ty ins = Inr (c', g))
     \<and> (\<forall>c' g. Gate_init c ty ins = Inr (c', g)
            \<and> (ty = GNot \<and> length ins \<noteq> 1
               \<or> (ty = GAnd \<or> ty = GNand \<or> ty = GOr \<or> ty = GNor) \<and> length ins < 2)
          \<longrightarrow> propagate c' g = Inl AssertionError)"
proof (intro conjI allI impI)
  assume "name_counts c ty \<noteq> None"
  then obtain k where "name_counts c ty = Some k" by auto
  from Gate_init_succeeds [OF this, of ins]
  show "\<exists>c' g. Gate_init c ty ins = Inr (c', g)" by blast
next
  fix c' g
  assume h: "Gate_init c ty ins = Inr (c', g)
     \<and> (ty = GNot \<and> length ins \<noteq> 1
        \<or> (ty = GAnd \<or> ty = GNand \<or> ty = GOr \<or> ty = GNor) \<and> length ins < 2)"
  then have init: "Gate_init c ty ins = Inr (c', g)" by simp
  show "propagate c' g = Inl AssertionError"
    using propagate_arity_error [OF Gate_init_new_gate(1) [OF init] Gate_init_new_gate(2) [OF init]] h
    by blast
qed

theorem arity_checked_at_propagate_witness:
  "name_counts two_pi GNot \<noteq> None
   \<and> Gate_init two_pi GNot [0, 1] = Inr (not_ab, 0)
   \<and> length [0::nat, 1] \<noteq> 1
   \<and> propagate not_ab 0 = Inl AssertionError"
proof -
  have n: "name_counts two_pi GNot \<noteq> None" by (simp add: name_counts_two_pi)
  from arity_checked_at_propagate [OF n, of "[0, 1]"] Gate_init_not_ab n
  show ?thesis by simp
qed

text \<open>
  C9, as stated, fails: a primary input listed twice among the inputs of one AND gate is
  read by a single gate, and \<open>is_fanout\<close> is true for it.
\<close>

theorem same_gate_twice_counterexample:
  "Gate_init one_pi GAnd [0, 0] = Inr (and_aa, 0)
   \<and> gates (nodes and_aa ! 0) = [0, 0]
   \<and> is_fanout (nodes and_aa ! 0)
   \<and> readers and_aa 0 = [0]
   \<and> \<not> 1 < length (readers and_aa 0)"
proof -
  have g: "gates (nodes and_aa ! 0) = [0, 0]"
    by (simp add: and_aa_def Gate_init_def Node_init_def Let_def name_counts_one_pi
        gate_tab_one_pi add_consumer_def one_pi_def empty_circuit_def)
  have r: "readers and_aa 0 = [0]"
    by (simp add: readers_def and_aa_def Gate_init_def Node_init_def Let_def name_counts_one_pi
        gate_tab_one_pi)
  from g r Gate_init_and_aa show ?thesis by (simp add: is_fanout_def)
qed

text \<open>
  C9, amended. \<open>is_fanout\<close> is true iff the node's consumer list has more than one
  entry, and constructing a gate appends the gate to that list once for each position at
  which the node occurs among the gate's inputs; a node listed twice among the inputs of a
  single gate is therefore fan-out.
\<close>

theorem is_fanout_counts_pins:
  "Gate_init c ty ins = Inr (c', g) \<Longrightarrow> n < length (nodes c) \<Longrightarrow>
     gates (nodes c' ! n) = gates (nodes c ! n) @ replicate (count_list ins n) g
     \<and> is_fanout (nodes c' ! n) = (1 < length (gates (nodes c ! n)) + count_list ins n)"
proof -
  assume init: "Gate_init c ty ins = Inr (c', g)" and n: "n < length (nodes c)"
  from Gate_init_Inr(2) [OF init] obtain nn
    where "nodes c' = fold (add_consumer g) ins (nodes c) @ [nn]" by blast
  with n have "nodes c' ! n = fold (add_consumer g) ins (nodes c) ! n"
    by (simp add: nth_append)
  with gates_fold_add_consumer [OF n, of g ins] show ?thesis
    by (simp add: is_fanout_def)
qed

theorem is_fanout_counts_pins_witness:
  "Gate_init one_pi GAnd [0, 0] = Inr (and_aa, 0) \<and> 0 < length (nodes one_pi)
   \<and> gates (nodes one_pi ! 0) = []
   \<and> gates (nodes and_aa ! 0) = [0, 0]
   \<and> is_fanout (nodes and_aa ! 0)"
proof -
  have n: "0 < length (nodes one_pi)" by (simp add: length_nodes_one_pi)
  have e: "gates (nodes one_pi ! 0) = []"
    by (simp add: one_pi_def Node_init_def empty_circuit_def Let_def)
  from is_fanout_counts_pins [OF Gate_init_and_aa n] n e Gate_init_and_aa
  show ?thesis by (simp add: numeral_2_eq_2)
qed

subsection \<open>Circuits built by the constructors\<close>

lemma wf_circuit_iff:
  "wf_circuit c \<longleftrightarrow>
     (\<forall>g < length (gate_tab c).
         out_node (gate_tab c ! g) < length (nodes c)
         \<and> (\<forall>i \<in> set (inputs (gate_tab c ! g)). i < out_node (gate_tab c ! g)))
     \<and> (\<forall>n < length (nodes c). \<forall>g \<in> set (gates (nodes c ! n)).
         g < length (gate_tab c) \<and> n \<in> set (inputs (gate_tab c ! g)))"
  by (auto simp: wf_circuit_def list_all_iff all_set_conv_all_nth)

lemma wf_gate:
  assumes "wf_circuit c" "g < length (gate_tab c)"
  shows "out_node (gate_tab c ! g) < length (nodes c)"
    and "i \<in> set (inputs (gate_tab c ! g)) \<Longrightarrow> i < out_node (gate_tab c ! g)"
  using assms by (auto simp: wf_circuit_iff)

lemma wf_node:
  assumes "wf_circuit c" "n < length (nodes c)" "g \<in> set (gates (nodes c ! n))"
  shows "g < length (gate_tab c)" and "n \<in> set (inputs (gate_tab c ! g))"
  using assms by (auto simp: wf_circuit_iff)

lemma count_list_pos: "0 < count_list xs x \<Longrightarrow> x \<in> set xs"
  by (induction xs) (auto split: if_splits)

lemma wf_empty_circuit: "wf_circuit empty_circuit"
  by (simp add: wf_circuit_def empty_circuit_def)

lemma Node_init_nodes:
  "nodes (fst (Node_init c nm gout sa))
     = nodes c @ [\<lparr>stuck_at = sa, state = LX, gates = [], gate_output = gout,
                   name = (case nm of Some s \<Rightarrow> s | None \<Rightarrow> generate_name (name_count c + 1)),
                   cc0 = None, cc1 = None\<rparr>]"
  and Node_init_gate_tab: "gate_tab (fst (Node_init c nm gout sa)) = gate_tab c"
  by (simp_all add: Node_init_def Let_def split: option.splits)

lemma wf_Node_init:
  assumes "wf_circuit c"
  shows "wf_circuit (fst (Node_init c nm gout sa))"
  unfolding wf_circuit_iff Node_init_nodes Node_init_gate_tab
  using assms unfolding wf_circuit_iff
  by (auto simp: nth_append less_Suc_eq)

lemma wf_Gate_init:
  assumes wf: "wf_circuit c" and ins: "\<forall>i \<in> set ins. i < length (nodes c)"
    and init: "Gate_init c ty ins = Inr (c', g)"
  shows "wf_circuit c'"
proof -
  from Gate_init_Inr [OF init] obtain nn gn where
    g: "g = length (gate_tab c)" and
    ns: "nodes c' = fold (add_consumer g) ins (nodes c) @ [nn]" "gates nn = []" and
    gs: "gate_tab c' = gate_tab c @ [gn]" "inputs gn = ins" "out_node gn = length (nodes c)"
    by blast
  have A: "out_node (gate_tab c' ! h) < length (nodes c')
           \<and> (\<forall>i \<in> set (inputs (gate_tab c' ! h)). i < out_node (gate_tab c' ! h))"
    if "h < length (gate_tab c')" for h
  proof (cases "h < length (gate_tab c)")
    case True
    with wf_gate [OF wf True] show ?thesis by (auto simp: gs ns nth_append)
  next
    case False
    with that have "h = length (gate_tab c)" by (simp add: gs)
    then show ?thesis using ins by (simp add: gs ns)
  qed
  have B: "h < length (gate_tab c') \<and> n \<in> set (inputs (gate_tab c' ! h))"
    if n: "n < length (nodes c')" and h: "h \<in> set (gates (nodes c' ! n))" for n h
  proof (cases "n < length (nodes c)")
    case True
    then have "gates (nodes c' ! n) = gates (nodes c ! n) @ replicate (count_list ins n) g"
      using gates_fold_add_consumer [OF True, of g ins] by (simp add: ns nth_append)
    with h consider "h \<in> set (gates (nodes c ! n))" | "h = g" "0 < count_list ins n"
      by (auto split: if_splits)
    then show ?thesis
    proof cases
      case 1
      from wf_node [OF wf True 1] show ?thesis by (simp add: gs nth_append)
    next
      case 2
      then have "n \<in> set ins" by (simp add: count_list_pos)
      with 2 show ?thesis by (simp add: gs g)
    qed
  next
    case False
    with n have "nodes c' ! n = nn" by (simp add: ns nth_append less_Suc_eq)
    with h ns(2) show ?thesis by simp
  qed
  from A B show ?thesis unfolding wf_circuit_iff by blast
qed

subsection \<open>Frame of propagation\<close>

lemma set_state_fields:
  assumes "set_state n v = Inr n'"
  shows "stuck_at n' = stuck_at n" "gates n' = gates n" "gate_output n' = gate_output n"
    "name n' = name n" "cc0 n' = cc0 n" "cc1 n' = cc1 n"
  using assms by (auto simp: set_state_def split: if_splits)

lemma wf_nodes_update:
  assumes "wf_circuit c" "gates n' = gates (nodes c ! k)"
  shows "wf_circuit (c\<lparr>nodes := (nodes c)[k := n']\<rparr>)"
proof -
  have "gates ((nodes c)[k := n'] ! n) = gates (nodes c ! n)" if "n < length (nodes c)" for n
    using that assms(2) by (cases "n = k") simp_all
  with assms(1) show ?thesis unfolding wf_circuit_iff by simp
qed

lemma wf_assign:
  assumes "wf_circuit c" "assign c n v = Inr c'"
  shows "wf_circuit c'"
  using assms
  by (auto simp: assign_def bind_res_def split: sum.splits
      intro!: wf_nodes_update dest: set_state_fields(2))

lemma propagate_Inr:
  assumes "propagate c g = Inr (c', v)"
  shows "\<exists>n' w. set_state (nodes c ! out_node (gate_tab c ! g)) w = Inr n'
           \<and> c' = c\<lparr>nodes := (nodes c)[out_node (gate_tab c ! g) := n']\<rparr> \<and> v = state n'"
  using assms
  by (auto simp: propagate_def Let_def bind_res_def split: sum.splits)

lemma wf_propagate:
  assumes "wf_circuit c" "propagate c g = Inr (c', v)"
  shows "wf_circuit c'"
proof -
  from propagate_Inr [OF assms(2)] obtain n' w where
    "set_state (nodes c ! out_node (gate_tab c ! g)) w = Inr n'"
    "c' = c\<lparr>nodes := (nodes c)[out_node (gate_tab c ! g) := n']\<rparr>" by blast
  then show ?thesis
    using wf_nodes_update [OF assms(1), of n'] set_state_fields(2) by simp
qed

text \<open>
  C10. In a circuit built by the constructors, a call of \<open>propagate\<close> that returns
  normally changes nothing but the state of the gate's output node: the gate table and the
  class counters are the same, every input node of the gate is the same, every node other
  than the output node is the same, and every node (the output node included) keeps its
  fault, consumer list, producer, name and cc0/cc1. The returned value is the new state of
  the output node.
\<close>

theorem propagate_frame:
  assumes "wf_circuit c" "g < length (gate_tab c)" "propagate c g = Inr (c', v)"
  shows "gate_tab c' = gate_tab c \<and> name_count c' = name_count c
         \<and> name_counts c' = name_counts c \<and> length (nodes c') = length (nodes c)
         \<and> (\<forall>i \<in> set (inputs (gate_tab c ! g)). nodes c' ! i = nodes c ! i)
         \<and> (\<forall>n < length (nodes c). n \<noteq> out_node (gate_tab c ! g) \<longrightarrow> nodes c' ! n = nodes c ! n)
         \<and> (\<forall>n < length (nodes c).
               stuck_at (nodes c' ! n) = stuck_at (nodes c ! n)
               \<and> gates (nodes c' ! n) = gates (nodes c ! n)
               \<and> gate_output (nodes c' ! n) = gate_output (nodes c ! n)
               \<and> name (nodes c' ! n) = name (nodes c ! n)
               \<and> cc0 (nodes c' ! n) = cc0 (nodes c ! n)
               \<and> cc1 (nodes c' ! n) = cc1 (nodes c ! n))
         \<and> v = state (nodes c' ! out_node (gate_tab c ! g))"
proof -
  let ?o = "out_node (gate_tab c ! g)"
  from propagate_Inr [OF assms(3)] obtain n' w where
    st: "set_state (nodes c ! ?o) w = Inr n'" and
    c': "c' = c\<lparr>nodes := (nodes c)[?o := n']\<rparr>" and v: "v = state n'" by blast
  have o: "?o < length (nodes c)" by (rule wf_gate(1) [OF assms(1,2)])
  have ins: "i \<noteq> ?o" if "i \<in> set (inputs (gate_tab c ! g))" for i
    using wf_gate(2) [OF assms(1,2) that] by simp
  have fields: "stuck_at ((nodes c' ! n)) = stuck_at (nodes c ! n)
               \<and> gates (nodes c' ! n) = gates (nodes c ! n)
               \<and> gate_output (nodes c' ! n) = gate_output (nodes c ! n)
               \<and> name (nodes c' ! n) = name (nodes c ! n)
               \<and> cc0 (nodes c' ! n) = cc0 (nodes c ! n)
               \<and> cc1 (nodes c' ! n) = cc1 (nodes c ! n)" if "n < length (nodes c)" for n
    using set_state_fields [OF st] that by (cases "n = ?o") (simp_all add: c')
  have others: "nodes c' ! n = nodes c ! n" if "n \<noteq> ?o" for n
    using that by (simp add: c')
  have out: "v = state (nodes c' ! ?o)"
    using o by (simp add: c' v)
  have tabs: "gate_tab c' = gate_tab c" "name_count c' = name_count c"
    "name_counts c' = name_counts c" "length (nodes c') = length (nodes c)"
    by (simp_all add: c')
  from tabs others ins fields out show ?thesis by blast
qed

lemma Gate_init_and_ab: "Gate_init two_pi GAnd [0, 1] = Inr (and_ab, 0)"
  using Gate_init_succeeds [OF name_counts_two_pi, of GAnd "[0, 1]"]
  by (auto simp: and_ab_def gate_tab_two_pi)

lemma length_nodes_two_pi: "length (nodes two_pi) = 2"
  by (simp add: two_pi_def Node_init_nodes length_nodes_one_pi)

lemma wf_two_pi: "wf_circuit two_pi"
  unfolding two_pi_def one_pi_def by (intro wf_Node_init wf_empty_circuit)

lemma wf_and_ab: "wf_circuit and_ab"
  by (rule wf_Gate_init [OF wf_two_pi _ Gate_init_and_ab]) (simp add: length_nodes_two_pi)

lemma and_ab_gate:
  "length (gate_tab and_ab) = 1" "inputs (gate_tab and_ab ! 0) = [0, 1]"
  "gtype (gate_tab and_ab ! 0) = GAnd" "out_node (gate_tab and_ab ! 0) = 2"
  using Gate_init_Inr(3) [OF Gate_init_and_ab]
  by (auto simp: gate_tab_two_pi length_nodes_two_pi)

lemma and_ab_nodes:
  "length (nodes and_ab) = 3"
  "stuck_at (nodes and_ab ! 0) = None" "stuck_at (nodes and_ab ! Suc 0) = None"
  "stuck_at (nodes and_ab ! 2) = None"
  "gates (nodes and_ab ! 0) = [0]" "gates (nodes and_ab ! Suc 0) = [0]" "gates (nodes and_ab ! 2) = []"
  "state (nodes and_ab ! 0) = LX" "state (nodes and_ab ! Suc 0) = LX" "state (nodes and_ab ! 2) = LX"
  by (simp_all add: and_ab_def Gate_init_def Node_init_def Let_def name_counts_two_pi
      two_pi_def one_pi_def empty_circuit_def add_consumer_def)

lemma assign_and_ab_set:
  "bind_res (assign and_ab 0 L1) (\<lambda>c. assign c 1 LD) = Inr and_ab_set"
  by (simp add: and_ab_set_def assign_def bind_res_def set_state_def is_faulty_def and_ab_nodes)

lemma wf_and_ab_set: "wf_circuit and_ab_set"
proof -
  from assign_and_ab_set obtain c1 where
    "assign and_ab 0 L1 = Inr c1" "assign c1 1 LD = Inr and_ab_set"
    by (auto simp: bind_res_def split: sum.splits)
  then show ?thesis using wf_assign wf_and_ab by blast
qed

lemma and_ab_set_facts:
  "gate_tab and_ab_set = gate_tab and_ab" "length (nodes and_ab_set) = 3"
  "state (nodes and_ab_set ! 0) = L1" "state (nodes and_ab_set ! Suc 0) = LD"
  "state (nodes and_ab_set ! 2) = LX" "stuck_at (nodes and_ab_set ! 2) = None"
  by (simp_all add: and_ab_set_def assign_def bind_res_def set_state_def is_faulty_def and_ab_nodes)

lemma propagate_and_ab_set: "propagate and_ab_set 0 = Inr (and_ab_run, LD)"
  by (simp add: and_ab_run_def propagate_def Let_def bind_res_def and_ab_set_facts and_ab_gate
      and_propagate_def set_state_def is_faulty_def)

theorem propagate_frame_witness:
  "wf_circuit and_ab_set \<and> 0 < length (gate_tab and_ab_set)
   \<and> propagate and_ab_set 0 = Inr (and_ab_run, LD)
   \<and> inputs (gate_tab and_ab_set ! 0) = [0, 1] \<and> out_node (gate_tab and_ab_set ! 0) = 2
   \<and> nodes and_ab_run ! 0 = nodes and_ab_set ! 0
   \<and> nodes and_ab_run ! 1 = nodes and_ab_set ! 1
   \<and> state (nodes and_ab_set ! 2) = LX
   \<and> state (nodes and_ab_run ! 2) = LD
   \<and> stuck_at (nodes and_ab_run ! 2) = stuck_at (nodes and_ab_set ! 2)
   \<and> gates (nodes and_ab_run ! 2) = gates (nodes and_ab_set ! 2)
   \<and> gate_tab and_ab_run = gate_tab and_ab_set"
proof -
  have len: "0 < length (gate_tab and_ab_set)" by (simp add: and_ab_set_facts and_ab_gate)
  from propagate_frame [OF wf_and_ab_set len propagate_and_ab_set]
  show ?thesis
    using wf_and_ab_set len propagate_and_ab_set
    by (simp add: and_ab_set_facts and_ab_gate)
qed

subsection \<open>X-paths\<close>

lemma x_path_head: "x_path c (m # ms) \<Longrightarrow> state (nodes c ! m) = LX"
  by (cases ms) simp_all

lemma x_path_unfold:
  assumes "state (nodes c ! m) = LX" "\<not> is_po (nodes c ! m)"
  shows "(\<exists>ms. x_path c (m # ms)) \<longleftrightarrow> (\<exists>k \<in> set (x_children c m). \<exists>ms. x_path c (k # ms))"
proof
  assume "\<exists>ms. x_path c (m # ms)"
  then obtain ms where p: "x_path c (m # ms)" ..
  with assms(2) obtain k ks where ms: "ms = k # ks" by (cases ms) auto
  with p have k: "k \<in> set (map (\<lambda>g. out_node (gate_tab c ! g)) (gates (nodes c ! m)))"
    and rest: "x_path c (k # ks)" by simp_all
  from x_path_head [OF rest] k have "k \<in> set (x_children c m)"
    by (auto simp: x_children_def)
  with rest show "\<exists>k \<in> set (x_children c m). \<exists>ms. x_path c (k # ms)" by blast
next
  assume "\<exists>k \<in> set (x_children c m). \<exists>ms. x_path c (k # ms)"
  then obtain k ks where k: "k \<in> set (x_children c m)" and p: "x_path c (k # ks)" by blast
  from k have "k \<in> set (map (\<lambda>g. out_node (gate_tab c ! g)) (gates (nodes c ! m)))"
    by (auto simp: x_children_def)
  with p assms(1) have "x_path c (m # k # ks)" by simp
  then show "\<exists>ms. x_path c (m # ms)" ..
qed

lemma x_children_props:
  assumes wf: "wf_circuit c" and m: "m < length (nodes c)" and k: "k \<in> set (x_children c m)"
  shows "m < k" "k < length (nodes c)" "state (nodes c ! k) = LX"
proof -
  from k obtain g where g: "g \<in> set (gates (nodes c ! m))" "k = out_node (gate_tab c ! g)"
    and x: "state (nodes c ! k) = LX"
    by (auto simp: x_children_def)
  from wf_node [OF wf m g(1)] have gl: "g < length (gate_tab c)"
    and mi: "m \<in> set (inputs (gate_tab c ! g))" by simp_all
  from wf_gate(2) [OF wf gl mi] g(2) show "m < k" by simp
  from wf_gate(1) [OF wf gl] g(2) show "k < length (nodes c)" by simp
  from x show "state (nodes c ! k) = LX" .
qed

lemma wf_later_node: "wf (later_node N)"
proof (rule wf_subset)
  show "wf (measure (\<lambda>m. N - m))" by simp
  show "later_node N \<subseteq> measure (\<lambda>m. N - m)"
    by (auto simp: later_node_def)
qed

lemma has_x_path_loop_correct:
  assumes wf: "wf_circuit c"
  shows "(\<forall>m \<in> set stack. m < length (nodes c) \<and> state (nodes c ! m) = LX) \<Longrightarrow>
         has_x_path_loop c ex stack = Some (\<exists>m \<in> set stack. \<exists>ms. x_path c (m # ms))"
proof (induction "mset stack" arbitrary: stack ex
    rule: wf_induct_rule [OF wf_mult1 [OF wf_later_node [of "length (nodes c)"]]])
  case 1 note less = this
  show ?case
  proof (cases stack rule: rev_cases)
    case Nil
    then show ?thesis by (simp add: has_x_path_loop.simps)
  next
    case (snoc rest m)
    from less(2) snoc have m: "m < length (nodes c)" "state (nodes c ! m) = LX"
      and rest: "\<forall>k \<in> set rest. k < length (nodes c) \<and> state (nodes c ! k) = LX"
      by simp_all
    show ?thesis
    proof (cases "is_po (nodes c ! m)")
      case True
      with m(2) have xp: "x_path c [m]" by simp
      have "m \<in> set stack" using snoc by simp
      with xp have "\<exists>k \<in> set stack. \<exists>ms. x_path c (k # ms)" by blast
      moreover have "has_x_path_loop c ex stack = Some True"
        using True snoc by (subst has_x_path_loop.simps) (simp add: Let_def)
      ultimately show ?thesis by simp
    next
      case False
      let ?new = "rest @ x_children c m"
      have step: "has_x_path_loop c ex stack = has_x_path_loop c (ex @ [m]) ?new"
        using False snoc
        by (subst has_x_path_loop.simps) (simp add: Let_def x_children_def)
      have smaller: "(mset ?new, mset stack) \<in> mult1 (later_node (length (nodes c)))"
      proof (rule mult1I)
        show "mset stack = add_mset m (mset rest)" using snoc by simp
        show "mset ?new = mset rest + mset (x_children c m)" by simp
        fix b assume "b \<in># mset (x_children c m)"
        then have "b \<in> set (x_children c m)" by simp
        from x_children_props(1,2) [OF wf m(1) this]
        show "(b, m) \<in> later_node (length (nodes c))" by (simp add: later_node_def)
      qed
      have inv: "\<forall>k \<in> set ?new. k < length (nodes c) \<and> state (nodes c ! k) = LX"
        using rest x_children_props(2,3) [OF wf m(1)] by auto
      have "has_x_path_loop c (ex @ [m]) ?new
            = Some (\<exists>k \<in> set ?new. \<exists>ms. x_path c (k # ms))"
        by (rule less(1) [OF smaller inv])
      also have "(\<exists>k \<in> set ?new. \<exists>ms. x_path c (k # ms))
                 \<longleftrightarrow> (\<exists>k \<in> set stack. \<exists>ms. x_path c (k # ms))"
        using x_path_unfold [OF m(2) False] snoc by auto
      finally show ?thesis using step by simp
    qed
  qed
qed

text \<open>
  C5. In a circuit built by the constructors \<open>has_x_path\<close> returns, and it returns:
  for a primary output, whether the node's own value is X; for every other node, whether
  there is a path of nodes, each with value X, that starts at the output of one of the
  gates the node feeds, follows node, consuming gate, output node edges, and ends at a
  primary output.
\<close>

theorem has_x_path_correct:
  assumes "wf_circuit c" "n < length (nodes c)"
  shows "has_x_path c n =
           Some (if is_po (nodes c ! n) then state (nodes c ! n) = LX
                 else \<exists>g \<in> set (gates (nodes c ! n)).
                        \<exists>ms. x_path c (out_node (gate_tab c ! g) # ms))"
proof (cases "is_po (nodes c ! n)")
  case True
  then show ?thesis by (simp add: has_x_path_def)
next
  case False
  have inv: "\<forall>k \<in> set (x_children c n). k < length (nodes c) \<and> state (nodes c ! k) = LX"
    using x_children_props(2,3) [OF assms] by auto
  have "has_x_path c n = has_x_path_loop c [] (x_children c n)"
    using False by (simp add: has_x_path_def x_children_def)
  also have "\<dots> = Some (\<exists>k \<in> set (x_children c n). \<exists>ms. x_path c (k # ms))"
    by (rule has_x_path_loop_correct [OF assms(1) inv])
  also have "(\<exists>k \<in> set (x_children c n). \<exists>ms. x_path c (k # ms))
             \<longleftrightarrow> (\<exists>g \<in> set (gates (nodes c ! n)). \<exists>ms. x_path c (out_node (gate_tab c ! g) # ms))"
    using x_path_head by (fastforce simp: x_children_def)
  finally show ?thesis using False by simp
qed

theorem has_x_path_correct_witness:
  "wf_circuit and_ab \<and> 0 < length (nodes and_ab) \<and> 2 < length (nodes and_ab)
   \<and> \<not> is_po (nodes and_ab ! 0) \<and> is_po (nodes and_ab ! 2)
   \<and> x_path and_ab [2]
   \<and> has_x_path and_ab 0 = Some True
   \<and> has_x_path and_ab 2 = Some True"
proof -
  have l: "0 < length (nodes and_ab)" "2 < length (nodes and_ab)"
    by (simp_all add: and_ab_nodes)
  have po: "\<not> is_po (nodes and_ab ! 0)" "is_po (nodes and_ab ! 2)"
    by (simp_all add: is_po_def and_ab_nodes)
  have xp: "x_path and_ab [2]"
    by (simp add: is_po_def and_ab_nodes)
  have ex: "\<exists>g \<in> set (gates (nodes and_ab ! 0)).
              \<exists>ms. x_path and_ab (out_node (gate_tab and_ab ! g) # ms)"
  proof -
    have "0 \<in> set (gates (nodes and_ab ! 0))" by (simp add: and_ab_nodes)
    moreover have "x_path and_ab (out_node (gate_tab and_ab ! 0) # [])"
      using xp by (simp only: and_ab_gate)
    ultimately show ?thesis by blast
  qed
  from has_x_path_correct [OF wf_and_ab l(1)] has_x_path_correct [OF wf_and_ab l(2)]
  show ?thesis
    using l po xp ex wf_and_ab by (simp add: and_ab_nodes)
qed

subsection \<open>Controllable-input selection\<close>

text \<open>
  C7 fails on the code for \<open>get_easiest_controllable_input\<close>. The running minimum starts
  at 100000 and a candidate is taken only when its score is below it, so a gate whose
  candidates all have a score of at least 100000 gets no input at all. Gate 16 of the chain
  is fed twice by node 16, which is unassigned and whose computed cc1 is 131071: asked for
  the input easiest to set to 1, the function returns none.
\<close>

theorem easiest_sentinel_failure:
  "(inputs (gate_tab chain19 ! 16), state (nodes chain19 ! 16), cc1 (nodes chain19 ! 16))
     = ([16, 16], LX, Some 131071)
   \<and> scanned_inputs chain19 16 True = [16, 16]
   \<and> get_easiest_controllable_input chain19 16 L1 True = Inr None"
  by code_simp

subsection \<open>Controllability of XOR and XNOR\<close>

text \<open>
  C4 fails on the code. The running minimum of \<open>xor_cc1_xnor_cc0\<close> starts at 1000000,
  so the result is never more than 1000001. For the XOR gate fed twice by the last node of
  the chain (cc0 = 20, cc1 = 1048575) both odd subsets cost 1048595, the parity-min plus 1
  is 1048596, and \<open>set_controllability\<close> stores cc1 = 1000001; the XNOR gate over the
  same inputs gets cc0 = 1000001.
\<close>

theorem xor_cc1_sentinel_failure:
  "(gtype (gate_tab xor_top ! 19), inputs (gate_tab xor_top ! 19),
    cc0 (nodes xor_top ! 19), cc1 (nodes xor_top ! 19), gate_output (nodes xor_top ! 20))
     = (GXor, [19, 19], Some 20, Some 1048575, Some 19)
   \<and> map_sum id snd (set_controllability xor_top 20) = Inr (41, 1000001)
   \<and> parity_min xor_top [19, 19] + 1 = 1048596
   \<and> gtype (gate_tab xnor_top ! 19) = GXnor
   \<and> map_sum id snd (set_controllability xnor_top 20) = Inr (1000001, 41)"
  by code_simp

subsection \<open>Selection within the bounds\<close>

text \<open>
  Both loops keep the first candidate that beats the running bound; the result is the
  first candidate whose score is the extreme one, unless no score beats the initial bound.
\<close>

lemma Max_past_head:
  fixes key :: "nat \<Rightarrow> int"
  assumes "i \<in> set xs" "key x < key i"
  shows "Max (key ` set (x # xs)) = Max (key ` set xs)" "key x \<noteq> Max (key ` set xs)"
proof -
  have ne: "key ` set xs \<noteq> {}" using assms(1) by auto
  have ge: "key i \<le> Max (key ` set xs)" using assms(1) by simp
  with assms(2) show "key x \<noteq> Max (key ` set xs)" by simp
  have "Max (key ` set (x # xs)) = max (key x) (Max (key ` set xs))"
    using ne by simp
  with ge assms(2) show "Max (key ` set (x # xs)) = Max (key ` set xs)" by simp
qed

lemma Min_past_head:
  fixes key :: "nat \<Rightarrow> int"
  assumes "i \<in> set xs" "key i < key x"
  shows "Min (key ` set (x # xs)) = Min (key ` set xs)" "key x \<noteq> Min (key ` set xs)"
proof -
  have ne: "key ` set xs \<noteq> {}" using assms(1) by auto
  have le: "Min (key ` set xs) \<le> key i" using assms(1) by simp
  with assms(2) show "key x \<noteq> Min (key ` set xs)" by simp
  have "Min (key ` set (x # xs)) = min (key x) (Min (key ` set xs))"
    using ne by simp
  with le assms(2) show "Min (key ` set (x # xs)) = Min (key ` set xs)" by simp
qed

lemma hardest_loop_first_max:
  assumes "\<forall>i \<in> set xs. attr (nodes c ! i) \<noteq> None"
  shows "hardest_loop c attr xs m nd =
           Inr (if \<forall>i \<in> set xs. the (attr (nodes c ! i)) \<le> m then nd
                else find (\<lambda>x. the (attr (nodes c ! x))
                                 = Max ((\<lambda>i. the (attr (nodes c ! i))) ` set xs)) xs)"
  using assms
proof (induction xs arbitrary: m nd)
  case Nil
  show ?case by simp
next
  case (Cons x xs)
  let ?key = "\<lambda>i. the (attr (nodes c ! i))"
  from Cons.prems obtain k where k: "attr (nodes c ! x) = Some k" by auto
  then have kx: "?key x = k" by simp
  have rest: "\<forall>i \<in> set xs. attr (nodes c ! i) \<noteq> None" using Cons.prems by simp
  note IH = Cons.IH [OF rest]
  show ?case
  proof (cases "m < k")
    case True
    then have "hardest_loop c attr (x # xs) m nd = hardest_loop c attr xs k (Some x)"
      by (simp add: k)
    then have call: "hardest_loop c attr (x # xs) m nd =
        Inr (if \<forall>i \<in> set xs. the (attr (nodes c ! i)) \<le> k then Some x
             else find (\<lambda>y. ?key y = Max (?key ` set xs)) xs)"
      by (simp only: IH)
    have nall: "\<not> (\<forall>i \<in> set (x # xs). the (attr (nodes c ! i)) \<le> m)" using True by (auto simp: kx)
    show ?thesis
    proof (cases "\<forall>i \<in> set xs. the (attr (nodes c ! i)) \<le> k")
      case all: True
      then have "Max (?key ` set (x # xs)) = k"
        by (intro Max_eqI) (auto simp: kx)
      with all show ?thesis unfolding call if_not_P [OF nall] by (simp add: kx)
    next
      case False
      then obtain i where i: "i \<in> set xs" "the (attr (nodes c ! x)) < the (attr (nodes c ! i))" by (auto simp: kx not_le)
      from Max_past_head [where key = ?key, OF i] show ?thesis
        unfolding call if_not_P [OF nall] if_not_P [OF False] by simp
    qed
  next
    case False
    then have "hardest_loop c attr (x # xs) m nd = hardest_loop c attr xs m nd"
      by (simp add: k)
    then have call: "hardest_loop c attr (x # xs) m nd =
        Inr (if \<forall>i \<in> set xs. the (attr (nodes c ! i)) \<le> m then nd
             else find (\<lambda>y. ?key y = Max (?key ` set xs)) xs)"
      by (simp only: IH)
    show ?thesis
    proof (cases "\<forall>i \<in> set xs. the (attr (nodes c ! i)) \<le> m")
      case True
      with False have a: "\<forall>i \<in> set (x # xs). the (attr (nodes c ! i)) \<le> m" by (auto simp: kx)
      show ?thesis unfolding call if_P [OF True] if_P [OF a] ..
    next
      case nall: False
      then obtain i where i: "i \<in> set xs" "the (attr (nodes c ! x)) < the (attr (nodes c ! i))"
        using False by (auto simp: kx not_le)
      from nall have nall': "\<not> (\<forall>i \<in> set (x # xs). the (attr (nodes c ! i)) \<le> m)" by auto
      from Max_past_head [where key = ?key, OF i] show ?thesis
        unfolding call if_not_P [OF nall] if_not_P [OF nall'] by simp
    qed
  qed
qed

lemma easiest_loop_first_min:
  assumes "\<forall>i \<in> set xs. attr (nodes c ! i) \<noteq> None"
  shows "easiest_loop c attr xs m nd =
           Inr (if \<forall>i \<in> set xs. m \<le> the (attr (nodes c ! i)) then nd
                else find (\<lambda>x. the (attr (nodes c ! x))
                                 = Min ((\<lambda>i. the (attr (nodes c ! i))) ` set xs)) xs)"
  using assms
proof (induction xs arbitrary: m nd)
  case Nil
  show ?case by simp
next
  case (Cons x xs)
  let ?key = "\<lambda>i. the (attr (nodes c ! i))"
  from Cons.prems obtain k where k: "attr (nodes c ! x) = Some k" by auto
  then have kx: "?key x = k" by simp
  have rest: "\<forall>i \<in> set xs. attr (nodes c ! i) \<noteq> None" using Cons.prems by simp
  note IH = Cons.IH [OF rest]
  show ?case
  proof (cases "k < m")
    case True
    then have "easiest_loop c attr (x # xs) m nd = easiest_loop c attr xs k (Some x)"
      by (simp add: k)
    then have call: "easiest_loop c attr (x # xs) m nd =
        Inr (if \<forall>i \<in> set xs. k \<le> the (attr (nodes c ! i)) then Some x
             else find (\<lambda>y. ?key y = Min (?key ` set xs)) xs)"
      by (simp only: IH)
    have nall: "\<not> (\<forall>i \<in> set (x # xs). m \<le> the (attr (nodes c ! i)))" using True by (auto simp: kx)
    show ?thesis
    proof (cases "\<forall>i \<in> set xs. k \<le> the (attr (nodes c ! i))")
      case all: True
      then have "Min (?key ` set (x # xs)) = k"
        by (intro Min_eqI) (auto simp: kx)
      with all show ?thesis unfolding call if_not_P [OF nall] by (simp add: kx)
    next
      case False
      then obtain i where i: "i \<in> set xs" "the (attr (nodes c ! i)) < the (attr (nodes c ! x))" by (auto simp: kx not_le)
      from Min_past_head [where key = ?key, OF i] show ?thesis
        unfolding call if_not_P [OF nall] if_not_P [OF False] by simp
    qed
  next
    case False
    then have "easiest_loop c attr (x # xs) m nd = easiest_loop c attr xs m nd"
      by (simp add: k)
    then have call: "easiest_loop c attr (x # xs) m nd =
        Inr (if \<forall>i \<in> set xs. m \<le> the (attr (nodes c ! i)) then nd
             else find (\<lambda>y. ?key y = Min (?key ` set xs)) xs)"
      by (simp only: IH)
    show ?thesis
    proof (cases "\<forall>i \<in> set xs. m \<le> the (attr (nodes c ! i))")
      case True
      with False have a: "\<forall>i \<in> set (x # xs). m \<le> the (attr (nodes c ! i))" by (auto simp: kx)
      show ?thesis unfolding call if_P [OF True] if_P [OF a] ..
    next
      case nall: False
      then obtain i where i: "i \<in> set xs" "the (attr (nodes c ! i)) < the (attr (nodes c ! x))"
        using False by (auto simp: kx not_le)
      from nall have nall': "\<not> (\<forall>i \<in> set (x # xs). m \<le> the (attr (nodes c ! i)))" by auto
      from Min_past_head [where key = ?key, OF i] show ?thesis
        unfolding call if_not_P [OF nall] if_not_P [OF nall'] by simp
    qed
  qed
qed

text \<open>
  The candidates are the unassigned inputs, or all inputs when there is none or when the
  caller asks for all.
\<close>

lemma scanned_inputs_cases:
  "scanned_inputs c gid unassigned =
     (if unassigned \<and> get_unassigned_inputs c gid \<noteq> [] then get_unassigned_inputs c gid
      else inputs (gate_tab c ! gid))"
  by (simp add: scanned_inputs_def Let_def)

text \<open>
  When every candidate has a score: \<open>get_hardest_controllable_input\<close> returns the first
  candidate of maximal score if the scores are positive (as computed scores are), and none
  only when there is no candidate; \<open>get_easiest_controllable_input\<close> returns the first
  candidate of minimal score if some score is below 100000, and none if every score is
  100000 or more.
\<close>

lemma hardest_selects_first_max:
  assumes "\<forall>i \<in> set (scanned_inputs c gid u). \<exists>k. cc_attribute v (nodes c ! i) = Some k \<and> 0 < k"
  shows "get_hardest_controllable_input c gid v u =
           Inr (find (\<lambda>x. the (cc_attribute v (nodes c ! x))
                         = Max ((\<lambda>i. the (cc_attribute v (nodes c ! i)))
                                  ` set (scanned_inputs c gid u)))
                  (scanned_inputs c gid u))"
proof -
  let ?xs = "scanned_inputs c gid u"
  have some: "\<forall>i \<in> set ?xs. cc_attribute v (nodes c ! i) \<noteq> None" using assms by auto
  have "(\<forall>i \<in> set ?xs. the (cc_attribute v (nodes c ! i)) \<le> 0) \<longleftrightarrow> ?xs = []"
  proof
    assume a: "\<forall>i \<in> set ?xs. the (cc_attribute v (nodes c ! i)) \<le> 0"
    show "?xs = []"
    proof (rule ccontr)
      assume "?xs \<noteq> []"
      then obtain i where i: "i \<in> set ?xs" by (cases ?xs) auto
      with assms obtain k where "cc_attribute v (nodes c ! i) = Some k" "0 < k" by blast
      with a i show False by auto
    qed
  qed simp
  then show ?thesis
    unfolding get_hardest_controllable_input_def hardest_loop_first_max [OF some]
    by (cases "?xs = []") (simp_all only: if_True if_False find.simps list.set ball_empty)
qed

lemma easiest_selects_first_min:
  assumes "\<forall>i \<in> set (scanned_inputs c gid u). cc_attribute v (nodes c ! i) \<noteq> None"
    and "\<exists>i \<in> set (scanned_inputs c gid u). the (cc_attribute v (nodes c ! i)) < 100000"
  shows "get_easiest_controllable_input c gid v u =
           Inr (find (\<lambda>x. the (cc_attribute v (nodes c ! x))
                         = Min ((\<lambda>i. the (cc_attribute v (nodes c ! i)))
                                  ` set (scanned_inputs c gid u)))
                  (scanned_inputs c gid u))"
proof -
  from assms(2) have n: "\<not> (\<forall>i \<in> set (scanned_inputs c gid u).
                           100000 \<le> the (cc_attribute v (nodes c ! i)))"
    by (auto simp: not_le)
  show ?thesis
    unfolding get_easiest_controllable_input_def easiest_loop_first_min [OF assms(1)]
      if_not_P [OF n] ..
qed

lemma easiest_none_above_sentinel:
  assumes "\<forall>i \<in> set (scanned_inputs c gid u). \<exists>k. cc_attribute v (nodes c ! i) = Some k \<and> 100000 \<le> k"
  shows "get_easiest_controllable_input c gid v u = Inr None"
proof -
  have some: "\<forall>i \<in> set (scanned_inputs c gid u). cc_attribute v (nodes c ! i) \<noteq> None"
    using assms by auto
  have "\<forall>i \<in> set (scanned_inputs c gid u). 100000 \<le> the (cc_attribute v (nodes c ! i))"
    using assms by auto
  then show ?thesis
    unfolding get_easiest_controllable_input_def easiest_loop_first_min [OF some]
    by simp
qed

subsection \<open>Parity-min below the bound\<close>

text \<open>
  The combinations of \<open>construct_odds\<close> are the sub-lists of odd length of the positions
  1 to n; the positions they select are exactly the odd-sized subsets of the inputs.
\<close>

lemma Nil_in_subseqs: "[] \<in> set (subseqs xs)"
  by (induction xs) (simp_all add: Let_def)

lemma length_subseqs_le: "ys \<in> set (subseqs xs) \<Longrightarrow> length ys \<le> length xs"
  by (induction xs arbitrary: ys) (auto simp: Let_def le_SucI)

lemma set_combinations:
  "set (combinations xs r) = {ys \<in> set (subseqs xs). length ys = r}"
proof (induction xs r rule: combinations.induct)
  case (1 xs)
  show ?case using Nil_in_subseqs [of xs] by auto
next
  case (2 r)
  show ?case by simp
next
  case (3 x xs r)
  then show ?case by (auto simp: Let_def)
qed

lemma set_concat_combinations:
  "set (concat (map (\<lambda>odd. combinations xs odd) (filter (\<lambda>x. x mod 2 = 1) rs)))
     = {ys \<in> set (subseqs xs). odd (length ys) \<and> length ys \<in> set rs}"
  by (auto simp: set_combinations odd_iff_mod_2_eq_one)

lemma set_construct_odds:
  "set (construct_odds n) = {ys \<in> set (subseqs [1..<n + 1]). odd (length ys)}"
proof -
  have "length ys \<in> set [1..<n + 1]"
    if a: "ys \<in> set (subseqs [1..<n + 1])" "odd (length ys)" for ys
  proof -
    from a(1) have "length ys \<le> length [1..<n + 1]" by (rule length_subseqs_le)
    also have "\<dots> = n" by (simp only: length_upt add_diff_cancel_right')
    finally have "length ys \<le> n" .
    moreover have "1 \<le> length ys" using a(2) by (cases ys) auto
    ultimately show ?thesis by (simp only: set_upt) simp
  qed
  then show ?thesis
    unfolding construct_odds_def Let_def set_concat_combinations by blast
qed

lemma card_comb_positions:
  assumes "T \<subseteq> {1..n}" "set ys = T"
  shows "card (comb_positions n ys) = card T"
proof -
  have "Suc ` comb_positions n ys = T"
  proof
    show "Suc ` comb_positions n ys \<subseteq> T" using assms by (auto simp: comb_positions_def)
    show "T \<subseteq> Suc ` comb_positions n ys"
    proof
      fix t assume t: "t \<in> T"
      with assms(1) have "1 \<le> t" "t \<le> n" by auto
      then have "t - 1 < n" "Suc (t - 1) = t" by simp_all
      with t assms(2) have "t - 1 \<in> comb_positions n ys" by (simp add: comb_positions_def)
      then have "Suc (t - 1) \<in> Suc ` comb_positions n ys" by (rule imageI)
      then show "t \<in> Suc ` comb_positions n ys" using \<open>Suc (t - 1) = t\<close> by simp
    qed
  qed
  then have "card T = card (Suc ` comb_positions n ys)" by simp
  also have "\<dots> = card (comb_positions n ys)" by (rule card_image) simp
  finally show ?thesis by simp
qed

lemma comb_positions_image:
  "comb_positions n ` set (construct_odds n)
     = Set.filter (\<lambda>S. odd (card S)) (Pow {0..<n})"
proof (intro equalityI subsetI)
  fix S assume "S \<in> comb_positions n ` set (construct_odds n)"
  then obtain ys where ys: "ys \<in> set (subseqs [1..<n + 1])" "odd (length ys)"
    and S: "S = comb_positions n ys"
    by (auto simp: set_construct_odds)
  have d: "distinct ys" using subseqs_distinctD [OF ys(1)] by simp
  have "set ys \<in> set ` set (subseqs [1..<n + 1])" using ys(1) by (rule imageI)
  then have "set ys \<subseteq> set [1..<n + 1]" unfolding subseqs_powset by (rule PowD)
  then have sub: "set ys \<subseteq> {1..n}" by (simp only: set_upt) auto
  have "card S = length ys"
    using card_comb_positions [OF sub refl] d by (simp add: S distinct_card)
  with ys(2) show "S \<in> Set.filter (\<lambda>S. odd (card S)) (Pow {0..<n})"
    by (auto simp: S comb_positions_def)
next
  fix S assume "S \<in> Set.filter (\<lambda>S. odd (card S)) (Pow {0..<n})"
  then have S: "S \<subseteq> {0..<n}" "odd (card S)" by auto
  have "Suc ` S \<subseteq> {1..<n + 1}" using S(1) by auto
  then have "Suc ` S \<in> Pow (set [1..<n + 1])" by (simp only: set_upt Pow_iff)
  then obtain ys where ys: "ys \<in> set (subseqs [1..<n + 1])" "set ys = Suc ` S"
    unfolding subseqs_powset [symmetric] by auto
  have d: "distinct ys" using subseqs_distinctD [OF ys(1)] by simp
  have "length ys = card (Suc ` S)" using d ys(2) by (metis distinct_card)
  also have "\<dots> = card S" by (rule card_image) simp
  finally have "odd (length ys)" using S(2) by simp
  with ys(1) have "ys \<in> set (construct_odds n)" by (simp add: set_construct_odds)
  moreover have "comb_positions n ys = S"
    using S(1) by (auto simp: comb_positions_def ys(2))
  ultimately show "S \<in> comb_positions n ` set (construct_odds n)" by blast
qed

text \<open>The two loops of \<open>xor_cc1_xnor_cc0\<close> when every input has its scores.\<close>

lemma comb_term_sum_list:
  assumes "\<forall>p \<in> set ps. cc0 (nodes c ! snd p) \<noteq> None \<and> cc1 (nodes c ! snd p) \<noteq> None"
  shows "comb_term c combination ps t =
           Inr (t + sum_list (map (\<lambda>p. if fst p + 1 \<in> set combination
                                        then the (cc1 (nodes c ! snd p))
                                        else the (cc0 (nodes c ! snd p))) ps))"
  using assms
proof (induction ps arbitrary: t)
  case Nil
  show ?case by simp
next
  case (Cons p ps)
  obtain idx inp where p: "p = (idx, inp)" by (cases p)
  from Cons.prems p obtain a b where
    ab: "cc0 (nodes c ! inp) = Some a" "cc1 (nodes c ! inp) = Some b" by auto
  have rest: "\<forall>p \<in> set ps. cc0 (nodes c ! snd p) \<noteq> None \<and> cc1 (nodes c ! snd p) \<noteq> None"
    using Cons.prems by simp
  show ?case
    by (simp add: p ab bind_res_def Cons.IH [OF rest] add.assoc)
qed

lemma sum_list_enumerate:
  "sum_list (map (\<lambda>p. F (fst p) (snd p)) (enumerate 0 xs)) = (\<Sum>i = 0..<length xs. F i (xs ! i))"
proof -
  have "sum_list (map (\<lambda>p. F (fst p) (snd p)) (enumerate 0 xs))
        = (\<Sum>i = 0..<length xs. map (\<lambda>p. F (fst p) (snd p)) (enumerate 0 xs) ! i)"
    by (simp add: sum_list_sum_nth)
  also have "\<dots> = (\<Sum>i = 0..<length xs. F i (xs ! i))"
    by (rule sum.cong) (simp_all add: nth_enumerate_eq)
  finally show ?thesis .
qed

lemma comb_term_subset_cost:
  assumes "\<forall>x \<in> set gate_inputs. cc0 (nodes c ! x) \<noteq> None \<and> cc1 (nodes c ! x) \<noteq> None"
  shows "comb_term c combination (enumerate 0 gate_inputs) 0 =
           Inr (subset_cost c gate_inputs (comb_positions (length gate_inputs) combination))"
proof -
  let ?n = "length gate_inputs"
  let ?S = "comb_positions ?n combination"
  have some: "\<forall>p \<in> set (enumerate 0 gate_inputs).
                 cc0 (nodes c ! snd p) \<noteq> None \<and> cc1 (nodes c ! snd p) \<noteq> None"
    using assms by (auto simp: in_set_enumerate_eq)
  have "sum_list (map (\<lambda>p. if fst p + 1 \<in> set combination
                             then the (cc1 (nodes c ! snd p))
                             else the (cc0 (nodes c ! snd p))) (enumerate 0 gate_inputs))
        = (\<Sum>i = 0..<?n. if i + 1 \<in> set combination
                            then the (cc1 (nodes c ! (gate_inputs ! i)))
                            else the (cc0 (nodes c ! (gate_inputs ! i))))"
    by (rule sum_list_enumerate
        [where F = "\<lambda>i x. if i + 1 \<in> set combination then the (cc1 (nodes c ! x))
                            else the (cc0 (nodes c ! x))"])
  also have "\<dots> = (\<Sum>i \<in> {0..<?n} \<inter> {i. i + 1 \<in> set combination}.
                        the (cc1 (nodes c ! (gate_inputs ! i))))
                  + (\<Sum>i \<in> {0..<?n} \<inter> - {i. i + 1 \<in> set combination}.
                        the (cc0 (nodes c ! (gate_inputs ! i))))"
    by (rule sum.If_cases) simp
  also have "{0..<?n} \<inter> {i. i + 1 \<in> set combination} = ?S"
    by (auto simp: comb_positions_def)
  also have "{0..<?n} \<inter> - {i. i + 1 \<in> set combination} = {0..<?n} - ?S"
    by (auto simp: comb_positions_def)
  finally show ?thesis
    by (simp add: comb_term_sum_list [OF some] subset_cost_def)
qed

lemma xor_min_loop_fold:
  assumes "\<forall>x \<in> set gate_inputs. cc0 (nodes c ! x) \<noteq> None \<and> cc1 (nodes c ! x) \<noteq> None"
  shows "xor_min_loop c gate_inputs combs mn =
           Inr (fold min
                  (map (\<lambda>cb. subset_cost c gate_inputs (comb_positions (length gate_inputs) cb))
                     combs) mn)"
proof (induction combs arbitrary: mn)
  case Nil
  show ?case by simp
next
  case (Cons cb combs)
  have "(if t < mn then t else mn) = min t mn" for t :: int by (simp add: min_def)
  then show ?case
    by (simp add: comb_term_subset_cost [OF assms] bind_res_def Cons.IH)
qed

lemma odd_subsets_nonempty:
  assumes "0 < (n::nat)"
  shows "Set.filter (\<lambda>S. odd (card S)) (Pow {0..<n}) \<noteq> {}"
proof -
  have "{0} \<in> Set.filter (\<lambda>S. odd (card S)) (Pow {0..<n})" using assms by simp
  then show ?thesis by blast
qed

text \<open>
  For a gate with at least one input whose inputs all have their scores,
  \<open>xor_cc1_xnor_cc0\<close> returns 1 plus the smaller of 1000000 and the parity-min: the
  parity-min plus 1 exactly when the parity-min is below 1000000.
\<close>

lemma xor_cc1_xnor_cc0_parity_min:
  assumes "\<forall>x \<in> set gate_inputs. cc0 (nodes c ! x) \<noteq> None \<and> cc1 (nodes c ! x) \<noteq> None"
    and "gate_inputs \<noteq> []"
  shows "xor_cc1_xnor_cc0 c gate_inputs = Inr (min 1000000 (parity_min c gate_inputs) + 1)"
proof -
  let ?n = "length gate_inputs"
  let ?cost = "\<lambda>cb. subset_cost c gate_inputs (comb_positions ?n cb)"
  let ?A = "subset_cost c gate_inputs ` Set.filter (\<lambda>S. odd (card S)) (Pow {0..<?n})"
  have img: "set (map ?cost (construct_odds ?n)) = ?A"
    using comb_positions_image [of ?n] by (simp add: image_image [symmetric])
  have fin: "finite ?A" by simp
  have ne: "?A \<noteq> {}" using odd_subsets_nonempty [of ?n] assms(2) by simp
  have "fold min (map ?cost (construct_odds ?n)) 1000000
        = Min (set (1000000 # map ?cost (construct_odds ?n)))"
    by (rule Min.set_eq_fold [symmetric])
  also have "\<dots> = Min (insert 1000000 ?A)" by (simp only: list.set img)
  also have "\<dots> = min 1000000 (Min ?A)" using fin ne by (rule Min_insert)
  finally show ?thesis
    by (simp add: xor_cc1_xnor_cc0_def xor_min_loop_fold [OF assms(1)] bind_res_def
        parity_min_def)
qed

text \<open>What \<open>set_controllability\<close> stores as cc1 of an XOR and as cc0 of an XNOR.\<close>

lemma py_sum_from_Some:
  "\<forall>x \<in> set xs. x \<noteq> None \<Longrightarrow> py_sum_from acc xs = Inr (acc + sum_list (map the xs))"
proof (induction xs arbitrary: acc)
  case Nil
  show ?case by simp
next
  case (Cons x xs)
  then obtain v where "x = Some v" by auto
  with Cons show ?case by simp
qed

lemma min_sums_Inr:
  assumes "\<forall>x \<in> set ins. cc0 (nodes c ! x) \<noteq> None \<and> cc1 (nodes c ! x) \<noteq> None"
  shows "\<exists>a. bind_res (py_sum (map (\<lambda>x. cc0 (nodes c ! x)) ins)) (\<lambda>s0.
               bind_res (py_sum (map (\<lambda>x. cc1 (nodes c ! x)) ins)) (\<lambda>s1.
                 Inr (if s1 < s0 then s1 else s0))) = Inr a"
proof -
  have "\<forall>x \<in> set (map (\<lambda>x. cc0 (nodes c ! x)) ins). x \<noteq> None"
    "\<forall>x \<in> set (map (\<lambda>x. cc1 (nodes c ! x)) ins). x \<noteq> None"
    using assms by auto
  then show ?thesis
    by (simp only: py_sum_def py_sum_from_Some bind_res_def sum.case) blast
qed

lemma set_controllability_xor_xnor:
  assumes n: "n < length (nodes c)" and out: "gate_output (nodes c ! n) = Some gid"
    and ins: "inputs (gate_tab c ! gid) \<noteq> []"
    and some: "\<forall>x \<in> set (inputs (gate_tab c ! gid)).
                 cc0 (nodes c ! x) \<noteq> None \<and> cc1 (nodes c ! x) \<noteq> None"
  shows "gtype (gate_tab c ! gid) = GXor \<Longrightarrow>
           \<exists>c' a. set_controllability c n
                    = Inr (c', (a, min 1000000 (parity_min c (inputs (gate_tab c ! gid))) + 1))
                 \<and> cc1 (nodes c' ! n)
                    = Some (min 1000000 (parity_min c (inputs (gate_tab c ! gid))) + 1)"
    and "gtype (gate_tab c ! gid) = GXnor \<Longrightarrow>
           \<exists>c' b. set_controllability c n
                    = Inr (c', (min 1000000 (parity_min c (inputs (gate_tab c ! gid))) + 1, b))
                 \<and> cc0 (nodes c' ! n)
                    = Some (min 1000000 (parity_min c (inputs (gate_tab c ! gid))) + 1)"
proof -
  let ?g = "gate_tab c ! gid"
  from min_sums_Inr [OF some] obtain a where
    a: "bind_res (py_sum (map (\<lambda>x. cc0 (nodes c ! x)) (inputs ?g))) (\<lambda>s0.
          bind_res (py_sum (map (\<lambda>x. cc1 (nodes c ! x)) (inputs ?g))) (\<lambda>s1.
            Inr (if s1 < s0 then s1 else s0))) = Inr a" ..
  note pm = xor_cc1_xnor_cc0_parity_min [OF some ins]
  {
    assume "gtype ?g = GXor"
    then have "gate_controllability c ?g
                 = Inr (a + 1, min 1000000 (parity_min c (inputs ?g)) + 1)"
      unfolding gate_controllability_def Let_def a pm by (simp add: bind_res_def)
    then show "\<exists>c' a. set_controllability c n
                    = Inr (c', (a, min 1000000 (parity_min c (inputs ?g)) + 1))
                 \<and> cc1 (nodes c' ! n) = Some (min 1000000 (parity_min c (inputs ?g)) + 1)"
      using n by (simp add: set_controllability_def out bind_res_def)
  }
  {
    assume "gtype ?g = GXnor"
    then have "gate_controllability c ?g
                 = Inr (min 1000000 (parity_min c (inputs ?g)) + 1, a + 1)"
      unfolding gate_controllability_def Let_def a pm by (simp add: bind_res_def)
    then show "\<exists>c' b. set_controllability c n
                    = Inr (c', (min 1000000 (parity_min c (inputs ?g)) + 1, b))
                 \<and> cc0 (nodes c' ! n) = Some (min 1000000 (parity_min c (inputs ?g)) + 1)"
      using n by (simp add: set_controllability_def out bind_res_def)
  }
qed

end
